theory Spec2Isabelle
  imports Complex_Main
begin

section \<open>Python values, errors and sequences\<close>

text \<open>
  The module \<open>DiscreteFactor.py\<close> defines one class, \<open>Factor\<close>, on top of numpy arrays,
  Python dictionaries, tuples and sets. Every exception the code can raise is a value of
  \<open>error\<close>; a computation that may raise returns \<open>error + 'a\<close> with \<open>Inl\<close> for the
  exception. \<open>NameError\<close> stands for Python's error on reading a local variable that has
  not been assigned (\<open>UnboundLocalError\<close> is a subclass of it).
\<close>

datatype error = KeyError | ValueError | IndexError | AssertionError | NameError

text \<open>
  A generator expression \<open>tuple(e(x) for x in xs)\<close> evaluates its elements from left to
  right and stops at the first one that raises.
\<close>

fun sequence :: "(error + 'a) list \<Rightarrow> error + 'a list" where
  "sequence [] = Inr []"
| "sequence (r # rs) =
     (case r of
        Inl e \<Rightarrow> Inl e
      | Inr x \<Rightarrow> (case sequence rs of Inl e \<Rightarrow> Inl e | Inr xs \<Rightarrow> Inr (x # xs)))"

text \<open>
  \<open>find_pos xs x\<close> is the position of the first element equal to \<open>x\<close>; Python's
  \<open>xs.index(x)\<close> returns it and raises \<open>ValueError\<close> when there is none.
\<close>

definition find_pos :: "'a list \<Rightarrow> 'a \<Rightarrow> nat" where
  "find_pos xs x = length (takeWhile (\<lambda>y. y \<noteq> x) xs)"

definition py_index :: "'a list \<Rightarrow> 'a \<Rightarrow> error + nat" where
  "py_index xs x = (if x \<in> set xs then Inr (find_pos xs x) else Inl ValueError)"

text \<open>A dictionary subscript \<open>d[k]\<close> raises \<open>KeyError\<close> on a missing key.\<close>

definition lookup :: "('k \<rightharpoonup> 'a) \<Rightarrow> 'k \<Rightarrow> error + 'a" where
  "lookup d k = (case d k of None \<Rightarrow> Inl KeyError | Some x \<Rightarrow> Inr x)"

text \<open>
  The iteration order of a Python \<open>set\<close> is not fixed by the language. The functions
  below that turn a set into a list take that order as a parameter \<open>enum\<close>; all that is
  known of it is that it lists every element of the set exactly once.
\<close>

definition set_iteration :: "('v set \<Rightarrow> 'v list) \<Rightarrow> bool" where
  "set_iteration enum \<longleftrightarrow> (\<forall>S. finite S \<longrightarrow> set (enum S) = S \<and> distinct (enum S))"

section \<open>numpy arrays\<close>

text \<open>
  An n-dimensional array is its shape and its elements in row-major (C) order. The
  elements are floating-point numbers in numpy; they are idealised as real numbers here,
  so rounding is not modelled, and a division by zero (which numpy answers with
  \<open>inf\<close> or \<open>nan\<close>) is only ever used below where the divisor is shown to be non-zero
  or the array has no elements.
\<close>

record ndarray =
  shape :: "nat list"
  data :: "real list"

definition wf_array :: "ndarray \<Rightarrow> bool" where
  "wf_array a \<longleftrightarrow> length (data a) = prod_list (shape a)"

text \<open>All index tuples of a shape, in row-major order, and the offset of one of them.\<close>

definition all_indices :: "nat list \<Rightarrow> nat list list" where
  "all_indices sh = product_lists (map (\<lambda>n. [0..<n]) sh)"

definition valid_index :: "nat list \<Rightarrow> nat list \<Rightarrow> bool" where
  "valid_index sh idx \<longleftrightarrow> list_all2 (<) idx sh"

fun ravel :: "nat \<Rightarrow> nat list \<Rightarrow> nat list \<Rightarrow> nat" where
  "ravel acc (n # ns) (i # is) = ravel (acc * n + i) ns is"
| "ravel acc _ _ = acc"

definition flat_index :: "nat list \<Rightarrow> nat list \<Rightarrow> nat" where
  "flat_index sh idx = ravel 0 sh idx"

definition cell :: "ndarray \<Rightarrow> nat list \<Rightarrow> real" where
  "cell a idx = data a ! flat_index (shape a) idx"

definition tabulate :: "nat list \<Rightarrow> (nat list \<Rightarrow> real) \<Rightarrow> ndarray" where
  "tabulate sh f = \<lparr>shape = sh, data = map f (all_indices sh)\<rparr>"

definition scalar :: "real \<Rightarrow> ndarray" where
  "scalar x = \<lparr>shape = [], data = [x]\<rparr>"

text \<open>\<open>np.ones(shape)\<close>, \<open>np.sum(a)\<close>, \<open>a / s\<close> for a number \<open>s\<close>, and \<open>a.copy()\<close>.\<close>

definition np_ones :: "nat list \<Rightarrow> ndarray" where
  "np_ones sh = tabulate sh (\<lambda>_. 1)"

definition np_sum :: "ndarray \<Rightarrow> real" where
  "np_sum a = sum_list (data a)"

definition np_divide :: "ndarray \<Rightarrow> real \<Rightarrow> ndarray" where
  "np_divide a s = a\<lparr>data := map (\<lambda>x. x / s) (data a)\<rparr>"

definition np_copy :: "ndarray \<Rightarrow> ndarray" where
  "np_copy a = a"

text \<open>\<open>np.expand_dims(a, -1)\<close>: one more axis of size 1 at the end, same elements.\<close>

definition expand_dims_last :: "ndarray \<Rightarrow> ndarray" where
  "expand_dims_last a = a\<lparr>shape := shape a @ [1]\<rparr>"

text \<open>
  \<open>a.transpose(axes)\<close>: axis \<open>k\<close> of the result is axis \<open>axes[k]\<close> of \<open>a\<close>. numpy raises
  \<open>ValueError\<close> (or its subclass \<open>AxisError\<close>) unless \<open>axes\<close> is a permutation of the
  axes of \<open>a\<close>.
\<close>

definition np_transpose :: "nat list \<Rightarrow> ndarray \<Rightarrow> error + ndarray" where
  "np_transpose axes a =
     (if length axes \<noteq> length (shape a) \<or> \<not> distinct axes
         \<or> \<not> list_all (\<lambda>j. j < length (shape a)) axes
      then Inl ValueError
      else Inr (tabulate (map ((!) (shape a)) axes)
                  (\<lambda>idx. cell a (map (\<lambda>j. idx ! find_pos axes j) [0..<length axes]))))"

text \<open>
  \<open>a * b\<close> with broadcasting: the shorter shape is padded with leading 1s, two sizes are
  compatible when they are equal or one of them is 1, and an axis of size 1 is read at
  index 0 whatever the index of the result.
\<close>

definition pad_shape :: "nat \<Rightarrow> nat list \<Rightarrow> nat list" where
  "pad_shape r sh = replicate (r - length sh) 1 @ sh"

fun broadcast_dims :: "nat list \<Rightarrow> nat list \<Rightarrow> error + nat list" where
  "broadcast_dims (n # ns) (m # ms) =
     (if n = m \<or> m = 1 then map_sum id ((#) n) (broadcast_dims ns ms)
      else if n = 1 then map_sum id ((#) m) (broadcast_dims ns ms)
      else Inl ValueError)"
| "broadcast_dims [] [] = Inr []"
| "broadcast_dims _ _ = Inl ValueError"

definition broadcast_shape :: "nat list \<Rightarrow> nat list \<Rightarrow> error + nat list" where
  "broadcast_shape sa sb =
     (let r = max (length sa) (length sb) in broadcast_dims (pad_shape r sa) (pad_shape r sb))"

definition broadcast_index :: "nat list \<Rightarrow> nat list \<Rightarrow> nat list" where
  "broadcast_index sh idx =
     map2 (\<lambda>n i. if n = 1 then 0 else i) sh (drop (length idx - length sh) idx)"

definition np_multiply :: "ndarray \<Rightarrow> ndarray \<Rightarrow> error + ndarray" where
  "np_multiply a b =
     (case broadcast_shape (shape a) (shape b) of
        Inl e \<Rightarrow> Inl e
      | Inr sh \<Rightarrow>
          Inr (tabulate sh (\<lambda>idx. cell a (broadcast_index (shape a) idx)
                                 * cell b (broadcast_index (shape b) idx))))"

text \<open>
  \<open>a[indices]\<close> and \<open>a[indices] = v\<close> for a tuple of non-negative integers. Too many
  indices or an index out of bounds raise \<open>IndexError\<close>; with fewer indices than axes
  the expression denotes the sub-array of the remaining axes. A full index yields a
  numpy scalar, which is the array of shape \<open>()\<close>.
\<close>

definition nd_getitem :: "ndarray \<Rightarrow> nat list \<Rightarrow> error + ndarray" where
  "nd_getitem a ix =
     (if length ix > length (shape a) \<or> \<not> list_all2 (<) ix (take (length ix) (shape a))
      then Inl IndexError
      else Inr (tabulate (drop (length ix) (shape a)) (\<lambda>rest. cell a (ix @ rest))))"

definition nd_setitem :: "ndarray \<Rightarrow> nat list \<Rightarrow> real \<Rightarrow> error + ndarray" where
  "nd_setitem a ix v =
     (if length ix > length (shape a) \<or> \<not> list_all2 (<) ix (take (length ix) (shape a))
      then Inl IndexError
      else Inr (tabulate (shape a) (\<lambda>idx. if take (length ix) idx = ix then v else cell a idx)))"

text \<open>
  \<open>a[slices]\<close> for a tuple of slice objects: \<open>slice(None)\<close> keeps an axis,
  \<open>slice(p, q)\<close> with \<open>0 \<le> p\<close> keeps the positions \<open>p\<close> up to \<open>q - 1\<close> that exist
  (bounds beyond the axis are clipped, never an error). Axes without a slice are kept.
\<close>

datatype slice = SliceNone | Slice nat nat

fun slice_length :: "slice \<Rightarrow> nat \<Rightarrow> nat" where
  "slice_length SliceNone n = n"
| "slice_length (Slice p q) n = min q n - min p n"

fun slice_start :: "slice \<Rightarrow> nat" where
  "slice_start SliceNone = 0"
| "slice_start (Slice p q) = p"

definition nd_slice :: "ndarray \<Rightarrow> slice list \<Rightarrow> error + ndarray" where
  "nd_slice a sl =
     (if length sl > length (shape a) then Inl IndexError
      else (let full = sl @ replicate (length (shape a) - length sl) SliceNone
            in Inr (tabulate (map2 slice_length full (shape a))
                      (\<lambda>idx. cell a (map2 (\<lambda>s i. slice_start s + i) full idx)))))"


section \<open>The class Factor\<close>

text \<open>
  A factor has a domain (a tuple of variable names), an outcome space (a dictionary from
  variable names to their sequences of outcomes) and a table. Outcome sequences are
  modelled as tuples, the form \<open>evidence\<close> itself writes.
\<close>

record ('v, 'o) Factor =
  domain :: "'v list"
  outcomeSpace :: "'v \<rightharpoonup> 'o list"
  table :: ndarray

text \<open>
  \<open>__init__(self, domain, outcomeSpace, table=None)\<close>: the dictionary and the table are
  copied; without a table, the table is all ones divided by its sum.
\<close>

definition init ::
  "'v list \<Rightarrow> ('v \<rightharpoonup> 'o list) \<Rightarrow> ndarray option \<Rightarrow> error + ('v, 'o) Factor" where
  "init vars os tbl =
     (case tbl of
        None \<Rightarrow>
          (case sequence (map (\<lambda>var. map_sum id length (lookup os var)) vars) of
             Inl e \<Rightarrow> Inl e
           | Inr sh \<Rightarrow>
               Inr \<lparr>domain = vars, outcomeSpace = os,
                    table = np_divide (np_ones sh) (np_sum (np_ones sh))\<rparr>)
      | Some t \<Rightarrow> Inr \<lparr>domain = vars, outcomeSpace = os, table = np_copy t\<rparr>)"

text \<open>
  The argument of \<open>f[...]\<close> is a tuple of outcomes, or a single value that is not a
  tuple and is wrapped into a 1-tuple.
\<close>

datatype 'o key = Single 'o | Tuple "'o list"

fun as_tuple :: "'o key \<Rightarrow> 'o list" where
  "as_tuple (Single x) = [x]"
| "as_tuple (Tuple xs) = xs"

text \<open>
  \<open>tuple(self.outcomeSpace[var].index(outcomes[i]) for i, var in enumerate(self.domain))\<close>:
  for each variable in turn the dictionary is read first (\<open>KeyError\<close>), then
  \<open>outcomes[i]\<close> (\<open>IndexError\<close> when the tuple is too short), then \<open>index\<close> is called
  (\<open>ValueError\<close> when the outcome is not in the sequence).
\<close>

definition key_indices :: "('v, 'o) Factor \<Rightarrow> 'o list \<Rightarrow> error + nat list" where
  "key_indices f outcomes =
     sequence (map (\<lambda>(i, var).
                 case lookup (outcomeSpace f) var of
                   Inl e \<Rightarrow> Inl e
                 | Inr s \<Rightarrow> if i < length outcomes then py_index s (outcomes ! i)
                            else Inl IndexError)
               (enumerate 0 (domain f)))"

definition getitem :: "('v, 'o) Factor \<Rightarrow> 'o key \<Rightarrow> error + ndarray" where
  "getitem f k =
     (let outcomes = as_tuple k in
      if length outcomes \<noteq> length (domain f) then Inl AssertionError
      else (case key_indices f outcomes of
              Inl e \<Rightarrow> Inl e
            | Inr ix \<Rightarrow> nd_getitem (table f) ix))"

text \<open>\<open>__setitem__\<close> writes into the table of the receiver; the updated receiver is
  returned.\<close>

definition setitem :: "('v, 'o) Factor \<Rightarrow> 'o key \<Rightarrow> real \<Rightarrow> error + ('v, 'o) Factor" where
  "setitem f k new_value =
     (let outcomes = as_tuple k in
      case key_indices f outcomes of
        Inl e \<Rightarrow> Inl e
      | Inr ix \<Rightarrow>
          (case nd_setitem (table f) ix new_value of
             Inl e \<Rightarrow> Inl e
           | Inr t \<Rightarrow> Inr (f\<lparr>table := t\<rparr>)))"

subsection \<open>join\<close>

text \<open>The loop that compares the outcome sequences of the shared variables.\<close>

fun check_outcomeSpaces ::
  "('v, 'o) Factor \<Rightarrow> ('v, 'o) Factor \<Rightarrow> 'v list \<Rightarrow> error + unit" where
  "check_outcomeSpaces self other [] = Inr ()"
| "check_outcomeSpaces self other (var # vars) =
     (case lookup (outcomeSpace self) var of
        Inl e \<Rightarrow> Inl e
      | Inr s \<Rightarrow>
          (case lookup (outcomeSpace other) var of
             Inl e \<Rightarrow> Inl e
           | Inr t \<Rightarrow> if s \<noteq> t then Inl IndexError
                      else check_outcomeSpaces self other vars))"

definition join ::
  "('v set \<Rightarrow> 'v list) \<Rightarrow> ('v, 'o) Factor \<Rightarrow> ('v, 'o) Factor \<Rightarrow> error + ('v, 'o) Factor" where
  "join enum self other =
     (case check_outcomeSpaces self other
             (enum (set (domain other) \<inter> set (domain self))) of
        Inl e \<Rightarrow> Inl e
      | Inr _ \<Rightarrow>
         (let new_dom = domain self @ enum (set (domain other) - set (domain self));
              self_t = (expand_dims_last ^^ card (set (domain other) - set (domain self)))
                         (table self);
              other_t = (expand_dims_last ^^ card (set (domain self) - set (domain other)))
                          (table other);
              old_order = domain other @ enum (set (domain self) - set (domain other))
          in case sequence (map (py_index old_order) new_dom) of
               Inl e \<Rightarrow> Inl e
             | Inr new_order \<Rightarrow>
                 (case np_transpose new_order other_t of
                    Inl e \<Rightarrow> Inl e
                  | Inr other_t' \<Rightarrow>
                      (case np_multiply self_t other_t' of
                         Inl e \<Rightarrow> Inl e
                       | Inr new_table \<Rightarrow>
                           init new_dom (outcomeSpace self ++ outcomeSpace other)
                             (Some new_table)))))"

subsection \<open>evidence\<close>

text \<open>
  \<open>copy.deepcopy(self)\<close>. A factor is a value here, so its copy is the same value; the
  store below gives the copy its own identity.
\<close>

definition copy :: "('v, 'o) Factor \<Rightarrow> ('v, 'o) Factor" where
  "copy f = f"

text \<open>
  One iteration of the loop over the keyword arguments. The state of the loop is the
  copy \<open>f\<close> and the local variable \<open>valuepos\<close>, which is unassigned (\<open>None\<close>) until an
  iteration assigns it and keeps its value from one iteration to the next. The test
  \<open>value in f.outcomeSpace[var]\<close> guards the assignment of \<open>valuepos\<close> only; the slicing
  and the update of the outcome space follow it unconditionally.
\<close>

definition evidence_step ::
  "('v, 'o) Factor \<Rightarrow> ('v, 'o) Factor \<times> nat option \<Rightarrow> 'v \<times> 'o
     \<Rightarrow> error + ('v, 'o) Factor \<times> nat option" where
  "evidence_step self st kv =
     (case st of (f, valuepos) \<Rightarrow> case kv of (var, val) \<Rightarrow>
      if var \<in> set (domain f) then
        (case lookup (outcomeSpace f) var of
           Inl e \<Rightarrow> Inl e
         | Inr s \<Rightarrow>
             (case (if val \<in> set s
                    then (case lookup (outcomeSpace self) var of
                            Inl e \<Rightarrow> Inl e
                          | Inr s' \<Rightarrow> map_sum id Some (py_index s' val))
                    else Inr valuepos) of
                Inl e \<Rightarrow> Inl e
              | Inr valuepos' \<Rightarrow>
                  (case sequence (map (\<lambda>v. if v = var
                                            then (case valuepos' of
                                                    None \<Rightarrow> Inl NameError
                                                  | Some p \<Rightarrow> Inr (Slice p (p + 1)))
                                            else Inr SliceNone) (domain f)) of
                     Inl e \<Rightarrow> Inl e
                   | Inr slices \<Rightarrow>
                       (case nd_slice (table f) slices of
                          Inl e \<Rightarrow> Inl e
                        | Inr t \<Rightarrow>
                            Inr (f\<lparr>table := t,
                                   outcomeSpace := (outcomeSpace f)(var \<mapsto> [val])\<rparr>,
                                 valuepos')))))
      else Inr (f, valuepos))"

fun evidence_loop ::
  "('v, 'o) Factor \<Rightarrow> ('v, 'o) Factor \<times> nat option \<Rightarrow> ('v \<times> 'o) list
     \<Rightarrow> error + ('v, 'o) Factor \<times> nat option" where
  "evidence_loop self st [] = Inr st"
| "evidence_loop self st (kv # kvs) =
     (case evidence_step self st kv of
        Inl e \<Rightarrow> Inl e
      | Inr st' \<Rightarrow> evidence_loop self st' kvs)"

text \<open>
  \<open>evidence(self, **kwargs)\<close>; the keyword arguments are the list of their items, in the
  order of the call. A Python call cannot repeat a keyword, so the names are distinct.
\<close>

definition evidence :: "('v, 'o) Factor \<Rightarrow> ('v \<times> 'o) list \<Rightarrow> error + ('v, 'o) Factor" where
  "evidence self kwargs = map_sum id fst (evidence_loop self (copy self, None) kwargs)"

subsection \<open>marginalize and normalize\<close>


text \<open>\<open>normalize\<close> assigns a new table to the receiver and returns the receiver.\<close>

definition normalize :: "('v, 'o) Factor \<Rightarrow> ('v, 'o) Factor" where
  "normalize self = self\<lparr>table := np_divide (table self) (np_sum (table self))\<rparr>"

subsection \<open>Objects\<close>

text \<open>
  Factor objects live in a store; a reference is a position in it. Every factor owns its
  table and its dictionary (the constructor copies both, \<open>evidence\<close> works on a deep
  copy), so an object is stored as a value. \<open>join\<close>, \<open>evidence\<close> and \<open>marginalize\<close>
  assign to no attribute of an existing object and return a new object; \<open>normalize\<close> and
  \<open>__setitem__\<close> update the receiver. A call that raises leaves the store as it was.
\<close>

type_synonym ('v, 'o) store = "('v, 'o) Factor list"

definition new_object ::
  "('v, 'o) store \<Rightarrow> error + ('v, 'o) Factor \<Rightarrow> (error + nat) \<times> ('v, 'o) store" where
  "new_object h r = (case r of Inl e \<Rightarrow> (Inl e, h) | Inr f \<Rightarrow> (Inr (length h), h @ [f]))"


definition call_evidence ::
  "('v, 'o) store \<Rightarrow> nat \<Rightarrow> ('v \<times> 'o) list \<Rightarrow> (error + nat) \<times> ('v, 'o) store" where
  "call_evidence h self kwargs = new_object h (evidence (h ! self) kwargs)"



definition call_setitem ::
  "('v, 'o) store \<Rightarrow> nat \<Rightarrow> 'o key \<Rightarrow> real \<Rightarrow> (error + unit) \<times> ('v, 'o) store" where
  "call_setitem h self k v =
     (case setitem (h ! self) k v of
        Inl e \<Rightarrow> (Inl e, h)
      | Inr f \<Rightarrow> (Inr (), h[self := f]))"

subsection \<open>The data-model invariants\<close>

text \<open>
  I1 and I2: the table has one axis per domain variable, every domain variable has an
  entry in the outcome space, and the size of each axis is the number of outcomes of its
  variable. \<open>wf_array\<close> is the fact that a numpy array holds as many elements as its
  shape says. I3 is a permission (the outcome space may mention more variables) and
  constrains nothing. The domain has no duplicates.
\<close>

definition shape_invariant :: "('v, 'o) Factor \<Rightarrow> bool" where
  "shape_invariant f \<longleftrightarrow>
     list_all2 (\<lambda>n var. case outcomeSpace f var of None \<Rightarrow> False | Some s \<Rightarrow> n = length s)
       (shape (table f)) (domain f)"

definition wf_Factor :: "('v, 'o) Factor \<Rightarrow> bool" where
  "wf_Factor f \<longleftrightarrow> shape_invariant f \<and> wf_array (table f) \<and> distinct (domain f)"


text \<open>
  Keyword arguments for \<open>evidence\<close> that name variables of the domain, each once, with
  values among the outcomes of their variables.
\<close>

definition evidence_in_domain :: "('v, 'o) Factor \<Rightarrow> ('v \<times> 'o) list \<Rightarrow> bool" where
  "evidence_in_domain f kwargs \<longleftrightarrow>
     distinct (map fst kwargs)
     \<and> list_all (\<lambda>kv. fst kv \<in> set (domain f)
                      \<and> (case outcomeSpace f (fst kv) of None \<Rightarrow> False
                          | Some s \<Rightarrow> snd kv \<in> set s)) kwargs"

subsection \<open>Stores that differ in one object\<close>


subsection \<open>Axis sizes and compatibility\<close>

text \<open>
  The size of the axis of a variable in a factor's table, 1 for a variable that is not
  in the domain (the size of an axis added by \<open>expand_dims\<close>); and the condition that
  the compatibility check of \<open>join\<close> tests: the variables of both domains have equal
  outcome sequences.
\<close>

definition sizes :: "('v, 'o) Factor \<Rightarrow> 'v \<Rightarrow> nat" where
  "sizes f v = (if v \<in> set (domain f) then length (the (outcomeSpace f v)) else 1)"

definition compatible :: "('v, 'o) Factor \<Rightarrow> ('v, 'o) Factor \<Rightarrow> bool" where
  "compatible A B \<longleftrightarrow>
     list_all (\<lambda>v. v \<notin> set (domain B) \<or> outcomeSpace A v = outcomeSpace B v) (domain A)"

text \<open>
  The outcome space of \<open>B\<close> agrees with \<open>A\<close> when it gives every variable of \<open>A\<close>'s
  domain that it mentions the sequence that \<open>A\<close> gives it.
\<close>

definition outcomeSpace_agrees :: "('v, 'o) Factor \<Rightarrow> ('v, 'o) Factor \<Rightarrow> bool" where
  "outcomeSpace_agrees A B \<longleftrightarrow>
     list_all (\<lambda>v. outcomeSpace B v = None \<or> outcomeSpace B v = outcomeSpace A v) (domain A)"

subsection \<open>Joint assignments\<close>

text \<open>
  A joint assignment \<open>\<sigma>\<close> gives each variable an outcome; it is an assignment for a
  factor when each domain variable gets one of its outcomes, and \<open>position\<close> is the
  index of that outcome on the variable's axis.
\<close>

definition position :: "('v, 'o) Factor \<Rightarrow> ('v \<Rightarrow> 'o) \<Rightarrow> 'v \<Rightarrow> nat" where
  "position f \<sigma> v = find_pos (the (outcomeSpace f v)) (\<sigma> v)"

definition assignment_for :: "('v, 'o) Factor \<Rightarrow> ('v \<Rightarrow> 'o) \<Rightarrow> bool" where
  "assignment_for f \<sigma> \<longleftrightarrow>
     list_all (\<lambda>v. case outcomeSpace f v of None \<Rightarrow> False | Some s \<Rightarrow> \<sigma> v \<in> set s) (domain f)"

text \<open>Reading a cell of a result that may be an exception.\<close>

definition then_getitem :: "error + ('v, 'o) Factor \<Rightarrow> 'o key \<Rightarrow> error + ndarray" where
  "then_getitem r k = (case r of Inl e \<Rightarrow> Inl e | Inr f \<Rightarrow> getitem f k)"

subsection \<open>The domain of a join in the words of the specification\<close>

text \<open>
  The domain of a join as the specification words it: the receiver's variables, then
  the other factor's new variables in the other factor's order.
\<close>

definition spec_join_domain :: "('v, 'o) Factor \<Rightarrow> ('v, 'o) Factor \<Rightarrow> 'v list" where
  "spec_join_domain self other =
     domain self @ filter (\<lambda>v. v \<notin> set (domain self)) (domain other)"

section \<open>Example factors\<close>

text \<open>
  The examples name their variables by small integers. For the sets of small
  non-negative integers used here, CPython iterates a set in increasing order (an
  integer is its own hash and the table has no collisions), which is
  \<open>sorted_list_of_set\<close>.
\<close>

definition F0 :: "(int, int) Factor" where
  "F0 = \<lparr>domain = [0], outcomeSpace = [0 \<mapsto> [0, 1]],
         table = \<lparr>shape = [2], data = [1, 3]\<rparr>\<rparr>"


definition FB :: "(int, int) Factor" where
  "FB = \<lparr>domain = [2, 1], outcomeSpace = [2 \<mapsto> [0, 1], 1 \<mapsto> [0, 1]],
         table = \<lparr>shape = [2, 2], data = [1, 2, 3, 4]\<rparr>\<rparr>"


text \<open>
  Two factors built over one shared dictionary of outcomes for the variables 0 and 1,
  after evidence that variable 0 has the value 1: \<open>A1\<close> (over variable 0) has been
  restricted, \<open>B1\<close> (over variable 1) has not, since \<open>evidence\<close> skips a variable that
  is not in the domain.
\<close>

definition A1 :: "(int, int) Factor" where
  "A1 = \<lparr>domain = [0], outcomeSpace = [0 \<mapsto> [1], 1 \<mapsto> [0, 1]],
         table = \<lparr>shape = [1], data = [3]\<rparr>\<rparr>"

definition B1 :: "(int, int) Factor" where
  "B1 = \<lparr>domain = [1], outcomeSpace = [0 \<mapsto> [0, 1], 1 \<mapsto> [0, 1]],
         table = \<lparr>shape = [2], data = [1 / 2, 1 / 2]\<rparr>\<rparr>"

text \<open>
  Keyword arguments have strings for names, so the examples of \<open>evidence\<close> name their
  variables by strings.
\<close>

definition GA :: "(string, int) Factor" where
  "GA = \<lparr>domain = [''A''], outcomeSpace = [''A'' \<mapsto> [0, 1]],
         table = \<lparr>shape = [2], data = [1, 3]\<rparr>\<rparr>"

definition GAB :: "(string, int) Factor" where
  "GAB = \<lparr>domain = [''A'', ''B''],
          outcomeSpace = [''A'' \<mapsto> [0, 1], ''B'' \<mapsto> [0, 1, 2]],
          table = \<lparr>shape = [2, 3], data = [1, 2, 3, 4, 5, 6]\<rparr>\<rparr>"

text \<open>An outcome space in which a variable has no outcome, and a joint assignment.\<close>

definition os_empty :: "int \<rightharpoonup> int list" where
  "os_empty = [0 \<mapsto> []]"

definition sigma01 :: "int \<Rightarrow> int" where
  "sigma01 v = (if v = 2 then 1 else 0)"

section \<open>Index tuples and offsets\<close>

lemma all_indices_Nil: "all_indices [] = [[]]"
  by (simp add: all_indices_def)

lemma all_indices_Cons:
  "all_indices (n # ns) = concat (map (\<lambda>i. map ((#) i) (all_indices ns)) [0..<n])"
  by (simp add: all_indices_def)

lemma set_all_indices: "set (all_indices sh) = {idx. valid_index sh idx}"
  by (auto simp: all_indices_def product_lists_set valid_index_def list_all2_map2
      list_all2_conv_all_nth)

lemma valid_index_length: "valid_index sh idx \<Longrightarrow> length idx = length sh"
  by (simp add: valid_index_def list_all2_lengthD)

lemma valid_index_nth: "valid_index sh idx \<Longrightarrow> k < length sh \<Longrightarrow> idx ! k < sh ! k"
  by (simp add: valid_index_def list_all2_conv_all_nth)

lemma valid_indexI:
  "length idx = length sh \<Longrightarrow> (\<And>k. k < length sh \<Longrightarrow> idx ! k < sh ! k) \<Longrightarrow> valid_index sh idx"
  by (simp add: valid_index_def list_all2_conv_all_nth)

lemma length_all_indices: "length (all_indices sh) = prod_list sh"
  by (induction sh)
     (simp_all add: all_indices_Nil all_indices_Cons length_concat comp_def sum_list_triv)

lemma ravel_acc:
  "length idx = length sh \<Longrightarrow> ravel acc sh idx = acc * prod_list sh + ravel 0 sh idx"
proof (induction sh arbitrary: acc idx)
  case Nil
  then show ?case by simp
next
  case (Cons n ns)
  then obtain i "is" where idx: "idx = i # is" and len: "length is = length ns"
    by (cases idx) auto
  have "ravel (acc * n + i) ns is = (acc * n + i) * prod_list ns + ravel 0 ns is"
    using Cons.IH[OF len] .
  moreover have "ravel i ns is = i * prod_list ns + ravel 0 ns is"
    using Cons.IH[OF len] .
  ultimately show ?case
    by (simp add: idx algebra_simps)
qed

lemma flat_index_Nil: "flat_index [] [] = 0"
  by (simp add: flat_index_def)

lemma flat_index_Cons:
  "length is = length ns \<Longrightarrow>
   flat_index (n # ns) (i # is) = i * prod_list ns + flat_index ns is"
  using ravel_acc[of "is" ns i] by (simp add: flat_index_def)

lemma concat_blocks_upt:
  "concat (map (\<lambda>i. map (\<lambda>k. i * m + k) [0..<m]) [0..<n]) = [0..<n * m]"
proof (induction n)
  case 0
  then show ?case by simp
next
  case (Suc n)
  have "map (\<lambda>k. n * m + k) [0..<m] = [n * m..<n * m + m]"
    by (simp add: map_add_upt add.commute)
  moreover have "[0..<n * m] @ [n * m..<n * m + m] = [0..<n * m + m]"
    using upt_add_eq_append[of 0 "n * m" m] by simp
  ultimately show ?case
    using Suc by (simp add: add.commute)
qed

text \<open>The offsets of the index tuples, taken in row-major order, count up from 0.\<close>

lemma map_flat_index_all_indices:
  "map (flat_index sh) (all_indices sh) = [0..<prod_list sh]"
proof (induction sh)
  case Nil
  then show ?case by (simp add: all_indices_Nil flat_index_Nil)
next
  case (Cons n ns)
  have len: "\<And>idx. idx \<in> set (all_indices ns) \<Longrightarrow> length idx = length ns"
    by (simp add: set_all_indices valid_index_length)
  have "map (flat_index (n # ns)) (all_indices (n # ns)) =
        concat (map (\<lambda>i. map (\<lambda>idx. i * prod_list ns + flat_index ns idx) (all_indices ns))
                  [0..<n])"
    by (simp add: all_indices_Cons map_concat comp_def flat_index_Cons len cong: map_cong)
  also have "\<dots> = concat (map (\<lambda>i. map (\<lambda>k. i * prod_list ns + k)
                                 (map (flat_index ns) (all_indices ns))) [0..<n])"
    by (simp add: comp_def)
  also have "\<dots> = [0..<n * prod_list ns]"
    by (simp only: Cons.IH concat_blocks_upt)
  finally show ?case by simp
qed

lemma flat_index_less:
  assumes "valid_index sh idx"
  shows "flat_index sh idx < prod_list sh"
proof -
  have "idx \<in> set (all_indices sh)"
    using assms by (simp add: set_all_indices)
  then have "flat_index sh idx \<in> set (map (flat_index sh) (all_indices sh))"
    by simp
  then show ?thesis
    by (simp only: map_flat_index_all_indices) simp
qed

lemma all_indices_nth_flat:
  assumes "valid_index sh idx"
  shows "all_indices sh ! flat_index sh idx = idx"
proof -
  have "idx \<in> set (all_indices sh)"
    using assms by (simp add: set_all_indices)
  then obtain k where k: "k < length (all_indices sh)" "all_indices sh ! k = idx"
    by (auto simp: in_set_conv_nth)
  have "map (flat_index sh) (all_indices sh) ! k = [0..<prod_list sh] ! k"
    by (simp only: map_flat_index_all_indices)
  then have "flat_index sh idx = k"
    using k by (simp add: length_all_indices)
  then show ?thesis
    using k by simp
qed

section \<open>Arrays by their cells\<close>

lemma shape_tabulate [simp]: "shape (tabulate sh f) = sh"
  by (simp add: tabulate_def)


lemma wf_tabulate [simp]: "wf_array (tabulate sh f)"
  by (simp add: wf_array_def tabulate_def length_all_indices)

lemma cell_tabulate: "valid_index sh idx \<Longrightarrow> cell (tabulate sh f) idx = f idx"
  by (simp add: cell_def tabulate_def flat_index_less length_all_indices all_indices_nth_flat)

lemma np_sum_tabulate: "np_sum (tabulate sh f) = (\<Sum>idx\<leftarrow>all_indices sh. f idx)"
  by (simp add: np_sum_def tabulate_def)

lemma tabulate_cell:
  assumes "wf_array a"
  shows "tabulate (shape a) (cell a) = a"
proof -
  have "map (cell a) (all_indices (shape a)) =
        map ((!) (data a)) (map (flat_index (shape a)) (all_indices (shape a)))"
    by (simp add: cell_def comp_def)
  also have "\<dots> = map ((!) (data a)) [0..<length (data a)]"
    using assms by (simp only: map_flat_index_all_indices wf_array_def)
  also have "\<dots> = data a"
    by (rule map_nth)
  finally show ?thesis
    by (simp add: tabulate_def)
qed


lemma tabulate_cong:
  "(\<And>idx. valid_index sh idx \<Longrightarrow> f idx = g idx) \<Longrightarrow> tabulate sh f = tabulate sh g"
  by (simp add: tabulate_def set_all_indices cong: map_cong)

lemma array_eqI:
  assumes "wf_array a" "wf_array b" "shape a = shape b"
    and "\<And>idx. valid_index (shape a) idx \<Longrightarrow> cell a idx = cell b idx"
  shows "a = b"
proof -
  have "tabulate (shape a) (cell a) = tabulate (shape b) (cell b)"
    using assms(3,4) tabulate_cong[of "shape a" "cell a" "cell b"] by simp
  then show ?thesis
    using assms(1,2) by (simp add: tabulate_cell)
qed

section \<open>Sequencing\<close>

lemma sequence_map_Inr:
  "(\<And>x. x \<in> set xs \<Longrightarrow> g x = Inr (f x)) \<Longrightarrow> sequence (map g xs) = Inr (map f xs)"
  by (induction xs) simp_all

section \<open>Whole-array operations\<close>



lemma shape_np_divide [simp]: "shape (np_divide a s) = shape a"
  by (simp add: np_divide_def)

lemma wf_np_divide [simp]: "wf_array (np_divide a s) = wf_array a"
  by (simp add: np_divide_def wf_array_def)



section \<open>normalize\<close>





section \<open>The constructor\<close>



section \<open>Evaluating the operations on concrete arrays\<close>

lemmas array_eval = tabulate_def all_indices_def cell_def flat_index_def upt_rec

lemma set_iteration_sorted: "set_iteration (sorted_list_of_set :: int set \<Rightarrow> int list)"
  by (simp add: set_iteration_def)

section \<open>Indexed access\<close>

lemma getitem_length_mismatch:
  "length (as_tuple k) \<noteq> length (domain f) \<Longrightarrow> getitem f k = Inl AssertionError"
  by (simp add: getitem_def)

text \<open>\<open>__setitem__\<close> never reads the outcomes beyond the length of the domain.\<close>

lemma key_indices_extra:
  assumes "length xs = length (domain f)"
  shows "key_indices f (xs @ ys) = key_indices f xs"
proof -
  have "(case p of (i, var) \<Rightarrow>
            case lookup (outcomeSpace f) var of
              Inl e \<Rightarrow> Inl e
            | Inr s \<Rightarrow> if i < length (xs @ ys) then py_index s ((xs @ ys) ! i) else Inl IndexError)
      = (case p of (i, var) \<Rightarrow>
            case lookup (outcomeSpace f) var of
              Inl e \<Rightarrow> Inl e
            | Inr s \<Rightarrow> if i < length xs then py_index s (xs ! i) else Inl IndexError)"
    if "p \<in> set (enumerate 0 (domain f))" for p
  proof -
    obtain i var where p: "p = (i, var)" by (cases p)
    have "i < length xs"
      using that assms by (simp add: p in_set_enumerate_eq)
    then show ?thesis
      by (simp add: p nth_append split: sum.splits)
  qed
  then show ?thesis
    unfolding key_indices_def by (simp cong: map_cong)
qed

lemma setitem_extra_values:
  "length xs = length (domain f) \<Longrightarrow> setitem f (Tuple (xs @ ys)) v = setitem f (Tuple xs) v"
  by (simp add: setitem_def key_indices_extra)

text \<open>
  Claim C6. On the factor \<open>F0\<close> over one variable with outcomes \<open>(0, 1)\<close> and table
  \<open>[1, 3]\<close>, the write \<open>F0[0, 1] = 9\<close> supplies two outcomes for one variable and does
  not fail: it stores 9 in the cell of outcome 0 and ignores the second value. The read
  \<open>F0[0, 1]\<close> fails with \<open>AssertionError\<close>.
\<close>

theorem setitem_accepts_extra_value:
  "map_sum id table (setitem F0 (Tuple [0, 1]) 9) = Inr \<lparr>shape = [2], data = [9, 3]\<rparr>
   \<and> getitem F0 (Tuple [0, 1]) = Inl AssertionError"
  by (simp add: setitem_def getitem_def key_indices_def F0_def lookup_def py_index_def
      find_pos_def nd_setitem_def array_eval)

section \<open>evidence: variables and values that are absent\<close>

lemma evidence_loop_absent_variables:
  "list_all (\<lambda>kv. fst kv \<notin> set (domain (fst st))) kwargs \<Longrightarrow>
   evidence_loop self st kwargs = Inr st"
  by (induction kwargs) (auto simp: evidence_step_def split: prod.splits)

text \<open>Evidence on variables that are not in the domain returns an equal factor.\<close>

lemma evidence_absent_variables:
  "list_all (\<lambda>kv. fst kv \<notin> set (domain self)) kwargs \<Longrightarrow> evidence self kwargs = Inr self"
  by (simp add: evidence_def copy_def evidence_loop_absent_variables)

text \<open>
  Claim C2. On the factor \<open>GA\<close> over the variable \<open>A\<close> with outcomes \<open>(0, 1)\<close>, the
  call \<open>GA.evidence(A=2)\<close> names a variable of the domain with a value that is not among
  its outcomes, and raises \<open>NameError\<close>: \<open>valuepos\<close> is read before any assignment.
\<close>

theorem evidence_absent_value_raises:
  "evidence GA [(''A'', 2)] = Inl NameError"
  by (simp add: evidence_def evidence_step_def copy_def lookup_def GA_def)

text \<open>
  When an earlier keyword has assigned \<open>valuepos\<close>, a later keyword whose value is
  absent does not raise: the axis is cut at the earlier position and the outcome
  sequence becomes the absent value.
\<close>

lemma evidence_stale_valuepos:
  "map_sum id (\<lambda>f. (table f, outcomeSpace f ''B'')) (evidence GAB [(''A'', 1), (''B'', 7)])
     = Inr (\<lparr>shape = [1, 1], data = [5]\<rparr>, Some [7])"
  by (simp add: evidence_def evidence_step_def copy_def lookup_def GAB_def py_index_def
      find_pos_def nd_slice_def array_eval)

section \<open>join: the domain of the result\<close>

lemma join_domain:
  assumes "join enum self other = Inr f"
  shows "domain f = domain self @ enum (set (domain other) - set (domain self))"
  using assms by (auto simp: join_def init_def Let_def split: sum.splits)

lemma join_F0_FB:
  "map_sum id (\<lambda>f. (domain f, table f)) (join sorted_list_of_set F0 FB)
     = Inr ([0, 1, 2], \<lparr>shape = [2, 2, 2], data = [1, 3, 2, 4, 3, 9, 6, 12]\<rparr>)"
  by (simp add: join_def F0_def FB_def insert_Diff_if lookup_def py_index_def find_pos_def
      expand_dims_last_def np_transpose_def np_multiply_def broadcast_shape_def pad_shape_def
      broadcast_index_def init_def np_copy_def array_eval eval_nat_numeral)

text \<open>
  Claim C3, as amended. Whenever \<open>self.join(other)\<close> returns, the domain of the result
  is \<open>self.domain\<close> followed by the list that Python's iteration over the set
  \<open>set(other.domain) - set(self.domain)\<close> yields: the receiver's variables keep their
  order, and the new variables are exactly the variables of \<open>other\<close> that are not in
  \<open>self\<close>, each once, in the order of that iteration.
\<close>

theorem join_domain_order:
  assumes "set_iteration enum" and "join enum self other = Inr f"
  shows "domain f = domain self @ enum (set (domain other) - set (domain self))
       \<and> take (length (domain self)) (domain f) = domain self
       \<and> set (drop (length (domain self)) (domain f)) = set (domain other) - set (domain self)
       \<and> distinct (drop (length (domain self)) (domain f))"
  using assms by (simp add: join_domain set_iteration_def)

theorem join_domain_order_witness:
  "\<exists>f. join sorted_list_of_set F0 FB = Inr f
      \<and> domain f = [0, 1, 2]
      \<and> take 1 (domain f) = [0]
      \<and> set (drop 1 (domain f)) = {1, 2}"
proof -
  obtain f where f: "join sorted_list_of_set F0 FB = Inr f"
    using join_F0_FB by (cases "join sorted_list_of_set F0 FB") simp_all
  have "domain f = domain F0 @ sorted_list_of_set (set (domain FB) - set (domain F0))
       \<and> take (length (domain F0)) (domain f) = domain F0
       \<and> set (drop (length (domain F0)) (domain f)) = set (domain FB) - set (domain F0)
       \<and> distinct (drop (length (domain F0)) (domain f))"
    using join_domain_order[OF set_iteration_sorted f] .
  then show ?thesis
    using f by (simp add: F0_def FB_def insert_Diff_if)
qed

text \<open>
  The claim as the specification states it fails: with \<open>self\<close> over the variable 0 and
  \<open>other\<close> over the variables \<open>(2, 1)\<close>, the set \<open>{2, 1}\<close> is iterated as 1, 2, so
  the domain of the join is \<open>(0, 1, 2)\<close>, where the specification says \<open>(0, 2, 1)\<close>.
\<close>

theorem join_domain_order_counterexample:
  "set_iteration (sorted_list_of_set :: int set \<Rightarrow> int list)
   \<and> map_sum id domain (join sorted_list_of_set F0 FB) = Inr [0, 1, 2]
   \<and> spec_join_domain F0 FB = [0, 2, 1]"
proof -
  have "map_sum id domain (join sorted_list_of_set F0 FB)
        = map_sum id fst (map_sum id (\<lambda>f. (domain f, table f)) (join sorted_list_of_set F0 FB))"
    by (cases "join sorted_list_of_set F0 FB") simp_all
  then have "map_sum id domain (join sorted_list_of_set F0 FB) = Inr [0, 1, 2]"
    by (simp only: join_F0_FB) simp
  moreover have "spec_join_domain F0 FB = [0, 2, 1]"
    by (simp add: spec_join_domain_def F0_def FB_def)
  ultimately show ?thesis
    by (simp add: set_iteration_sorted)
qed

section \<open>Positions in tuples\<close>

lemma find_pos_Nil [simp]: "find_pos [] x = 0"
  by (simp add: find_pos_def)

lemma find_pos_Cons: "find_pos (y # ys) x = (if y = x then 0 else Suc (find_pos ys x))"
  by (simp add: find_pos_def)

lemma find_pos_less: "x \<in> set xs \<Longrightarrow> find_pos xs x < length xs"
  by (induction xs) (auto simp: find_pos_Cons)

lemma nth_find_pos: "x \<in> set xs \<Longrightarrow> xs ! find_pos xs x = x"
  by (induction xs) (auto simp: find_pos_Cons)

lemma find_pos_nth: "distinct xs \<Longrightarrow> i < length xs \<Longrightarrow> find_pos xs (xs ! i) = i"
proof (induction xs arbitrary: i)
  case Nil
  then show ?case by simp
next
  case (Cons y ys)
  then show ?case by (cases i) (auto simp: find_pos_Cons)
qed


section \<open>Sums over an axis\<close>







section \<open>marginalize\<close>

lemma shape_invariant_length:
  "shape_invariant f \<Longrightarrow> length (shape (table f)) = length (domain f)"
  by (simp add: shape_invariant_def list_all2_lengthD)

lemma new_object_Inr: "new_object h (Inr f) = (Inr (length h), h @ [f])"
  by (simp add: new_object_def)

lemma new_object_Inl: "new_object h (Inl e) = (Inl e, h)"
  by (simp add: new_object_def)

lemma init_table: "init vars os (Some t) = Inr \<lparr>domain = vars, outcomeSpace = os, table = t\<rparr>"
  by (simp add: init_def np_copy_def)




lemma wf_FB: "wf_Factor FB"
  by (simp add: wf_Factor_def shape_invariant_def wf_array_def FB_def)


section \<open>join: the compatibility check\<close>

lemma check_outcomeSpaces_result:
  assumes "\<forall>v \<in> set vars. outcomeSpace self v \<noteq> None \<and> outcomeSpace other v \<noteq> None"
  shows "check_outcomeSpaces self other vars =
           (if \<exists>v \<in> set vars. outcomeSpace self v \<noteq> outcomeSpace other v
            then Inl IndexError else Inr ())"
  using assms
proof (induction vars)
  case Nil
  then show ?case by simp
next
  case (Cons a vars)
  then obtain s t where st: "outcomeSpace self a = Some s" "outcomeSpace other a = Some t"
    by auto
  show ?case
    using Cons by (cases "s = t") (simp_all add: lookup_def st)
qed








section \<open>Calls that create an object\<close>

lemma new_object_unchanged_on_error: "fst (new_object h r) = Inl e \<Longrightarrow> snd (new_object h r) = h"
  by (auto simp: new_object_def split: sum.splits)





section \<open>Slicing one axis\<close>

lemma map_if_distinct:
  assumes "distinct xs" and "x \<in> set xs"
  shows "map (\<lambda>v. if v = x then a else b) xs = (replicate (length xs) b)[find_pos xs x := a]"
proof (rule nth_equalityI)
  show "length (map (\<lambda>v. if v = x then a else b) xs)
        = length ((replicate (length xs) b)[find_pos xs x := a])"
    by simp
next
  fix i assume "i < length (map (\<lambda>v. if v = x then a else b) xs)"
  then have i: "i < length xs" by simp
  have "xs ! i = x \<longleftrightarrow> i = find_pos xs x"
    using assms i find_pos_nth[OF assms(1) i] nth_find_pos[OF assms(2)] by auto
  then show "map (\<lambda>v. if v = x then a else b) xs ! i
             = (replicate (length xs) b)[find_pos xs x := a] ! i"
    using i by (simp add: nth_list_update)
qed

lemma slice_shape:
  assumes "k < length sh" and "p < sh ! k"
  shows "map2 slice_length ((replicate (length sh) SliceNone)[k := Slice p (Suc p)]) sh = sh[k := Suc 0]"
proof (rule nth_equalityI)
  show "length (map2 slice_length ((replicate (length sh) SliceNone)[k := Slice p (Suc p)]) sh)
        = length (sh[k := Suc 0])"
    by simp
next
  fix i assume "i < length (map2 slice_length ((replicate (length sh) SliceNone)[k := Slice p (Suc p)]) sh)"
  then have i: "i < length sh" by simp
  show "map2 slice_length ((replicate (length sh) SliceNone)[k := Slice p (Suc p)]) sh ! i = sh[k := Suc 0] ! i"
    using i assms by (cases "i = k") (simp_all add: nth_list_update)
qed

lemma slice_source:
  assumes "valid_index (sh[k := Suc 0]) idx" and "k < length sh"
  shows "map2 (\<lambda>s i. slice_start s + i) ((replicate (length sh) SliceNone)[k := Slice p (Suc p)]) idx
         = idx[k := p]"
proof (rule nth_equalityI)
  have len: "length idx = length sh"
    using assms(1) by (simp add: valid_index_length)
  show "length (map2 (\<lambda>s i. slice_start s + i) ((replicate (length sh) SliceNone)[k := Slice p (Suc p)]) idx)
        = length (idx[k := p])"
    by (simp add: len)
  fix i assume "i < length (map2 (\<lambda>s i. slice_start s + i) ((replicate (length sh) SliceNone)[k := Slice p (Suc p)]) idx)"
  then have i: "i < length sh" by (simp add: len)
  have "idx ! k < 1"
    using valid_index_nth[OF assms(1), of k] assms(2) by simp
  then show "map2 (\<lambda>s i. slice_start s + i) ((replicate (length sh) SliceNone)[k := Slice p (Suc p)]) idx ! i
        = idx[k := p] ! i"
    using i len by (cases "i = k") (simp_all add: nth_list_update)
qed

lemma nd_slice_one:
  assumes "k < length (shape a)" and "p < shape a ! k"
  shows "nd_slice a ((replicate (length (shape a)) SliceNone)[k := Slice p (Suc p)])
         = Inr (tabulate ((shape a)[k := Suc 0]) (\<lambda>idx. cell a (idx[k := p])))"
proof -
  have "tabulate ((shape a)[k := Suc 0])
          (\<lambda>idx. cell a (map2 (\<lambda>s i. slice_start s + i)
                     ((replicate (length (shape a)) SliceNone)[k := Slice p (Suc p)]) idx))
        = tabulate ((shape a)[k := Suc 0]) (\<lambda>idx. cell a (idx[k := p]))"
  proof (rule tabulate_cong)
    fix idx assume v: "valid_index ((shape a)[k := Suc 0]) idx"
    show "cell a (map2 (\<lambda>s i. slice_start s + i)
                     ((replicate (length (shape a)) SliceNone)[k := Slice p (Suc p)]) idx)
          = cell a (idx[k := p])"
      by (simp only: slice_source[OF v assms(1)])
  qed
  then show ?thesis
    using slice_shape[OF assms] by (simp add: nd_slice_def)
qed

lemma concat_map_if_upt:
  assumes "p < n"
  shows "concat (map (\<lambda>i. if i = p then X else []) [0..<n]) = X"
proof -
  have "[0..<n] = [0..<p] @ [p..<n]"
    using assms upt_add_eq_append[of 0 p "n - p"] by simp
  then have "[0..<n] = [0..<p] @ p # [Suc p..<n]"
    using assms by (simp add: upt_conv_Cons)
  then have "concat (map (\<lambda>i. if i = p then X else []) [0..<n])
        = concat (map (\<lambda>i. if i = p then X else []) [0..<p]) @ X
          @ concat (map (\<lambda>i. if i = p then X else []) [Suc p..<n])"
    by simp
  moreover have "concat (map (\<lambda>i. if i = p then X else []) [0..<p]) = []"
    by (simp add: concat_eq_Nil_conv)
  moreover have "concat (map (\<lambda>i. if i = p then X else []) [Suc p..<n]) = []"
    by (simp add: concat_eq_Nil_conv)
  ultimately show ?thesis by simp
qed

lemma filter_axis_all_indices:
  assumes "k < length sh" and "p < sh ! k"
  shows "filter (\<lambda>idx. idx ! k = p) (all_indices sh)
         = map (\<lambda>idx. idx[k := p]) (all_indices (sh[k := Suc 0]))"
  using assms
proof (induction sh arbitrary: k)
  case Nil
  then show ?case by simp
next
  case (Cons n ns)
  show ?case
  proof (cases k)
    case 0
    have "filter (\<lambda>idx. idx ! 0 = p) (map ((#) i) xs)
          = (if i = p then map ((#) p) xs else [])" for i and xs :: "nat list list"
      by (simp add: filter_map comp_def)
    then have "filter (\<lambda>idx. idx ! 0 = p) (all_indices (n # ns))
          = concat (map (\<lambda>i. if i = p then map ((#) p) (all_indices ns) else []) [0..<n])"
      by (simp add: all_indices_Cons filter_concat comp_def)
    also have "\<dots> = map ((#) p) (all_indices ns)"
      using Cons.prems 0 by (simp add: concat_map_if_upt)
    finally show ?thesis
      by (simp add: 0 all_indices_Cons comp_def)
  next
    case (Suc k')
    then have k': "k' < length ns" "p < ns ! k'"
      using Cons.prems by simp_all
    have "filter (\<lambda>idx. idx ! k = p) (all_indices (n # ns))
          = concat (map (\<lambda>i. map ((#) i) (filter (\<lambda>idx. idx ! k' = p) (all_indices ns))) [0..<n])"
      by (simp add: Suc all_indices_Cons filter_concat comp_def filter_map)
    also have "\<dots> = concat (map (\<lambda>i. map ((#) i) (map (\<lambda>idx. idx[k' := p])
                                 (all_indices (ns[k' := Suc 0])))) [0..<n])"
      by (simp only: Cons.IH[OF k'])
    finally show ?thesis
      by (simp add: Suc all_indices_Cons map_concat comp_def)
  qed
qed


section \<open>evidence on a variable of the domain\<close>

lemma shape_invariant_nth:
  assumes "shape_invariant f" and "v \<in> set (domain f)" and "outcomeSpace f v = Some s"
  shows "shape (table f) ! find_pos (domain f) v = length s"
proof -
  have k: "find_pos (domain f) v < length (domain f)"
    using assms(2) by (rule find_pos_less)
  have "case outcomeSpace f (domain f ! find_pos (domain f) v) of
          None \<Rightarrow> False | Some s \<Rightarrow> shape (table f) ! find_pos (domain f) v = length s"
    using assms(1) k by (simp add: shape_invariant_def list_all2_conv_all_nth)
  then show ?thesis
    by (simp add: nth_find_pos[OF assms(2)] assms(3))
qed

lemma evidence_step_ok:
  assumes "shape_invariant f" and "distinct (domain f)"
    and "V \<in> set (domain f)" and "outcomeSpace f V = Some s" and "x \<in> set s"
    and "outcomeSpace self V = Some s"
  shows "evidence_step self (f, vp) (V, x) =
           Inr (f\<lparr>table := tabulate ((shape (table f))[find_pos (domain f) V := Suc 0])
                              (\<lambda>idx. cell (table f) (idx[find_pos (domain f) V := find_pos s x])),
                  outcomeSpace := (outcomeSpace f)(V \<mapsto> [x])\<rparr>,
                Some (find_pos s x))"
proof -
  let ?k = "find_pos (domain f) V" and ?p = "find_pos s x"
  have k: "?k < length (shape (table f))"
    using assms(1,3) by (simp add: shape_invariant_length find_pos_less)
  have p: "?p < shape (table f) ! ?k"
    using assms by (simp add: shape_invariant_nth find_pos_less)
  have "sequence (map (\<lambda>v. if v = V then (case Some ?p of None \<Rightarrow> Inl NameError
                                             | Some q \<Rightarrow> Inr (Slice q (q + 1)))
                            else Inr SliceNone) (domain f))
        = Inr (map (\<lambda>v. if v = V then Slice ?p (Suc ?p) else SliceNone) (domain f))"
    by (rule sequence_map_Inr) simp
  moreover have "map (\<lambda>v. if v = V then Slice ?p (Suc ?p) else SliceNone) (domain f)
        = (replicate (length (shape (table f))) SliceNone)[?k := Slice ?p (Suc ?p)]"
    using assms(1) by (simp add: map_if_distinct[OF assms(2,3)] shape_invariant_length)
  ultimately show ?thesis
    using assms(3-6) nd_slice_one[OF k p]
    by (simp add: evidence_step_def lookup_def py_index_def)
qed

text \<open>
  Claim C5. For a factor \<open>f\<close> satisfying the data-model invariants, a variable \<open>V\<close> of
  its domain and a value \<open>x\<close> of \<open>V\<close>'s outcome sequence, \<open>f.evidence(V=x)\<close> returns a
  new object and leaves \<open>f\<close> as it was. The result has the domain of \<open>f\<close>; its outcome
  sequence for \<open>V\<close> is \<open>(x,)\<close> and the other entries of the outcome space are those of
  \<open>f\<close>; its table has the rank of \<open>f\<close>'s table and the same shape but for the axis of
  \<open>V\<close>, which has length 1; each cell is the cell of \<open>f\<close> at the position of \<open>x\<close> on
  that axis; the sum of its entries is the sum of the entries of \<open>f\<close> over the cells
  whose index on the axis of \<open>V\<close> is the position of \<open>x\<close>; and the result satisfies
  the invariants.
\<close>

theorem evidence_restricts:
  assumes "self < length h" and "wf_Factor (h ! self)"
    and "V \<in> set (domain (h ! self))" and "outcomeSpace (h ! self) V = Some s" and "x \<in> set s"
  shows "\<exists>g. call_evidence h self [(V, x)] = (Inr (length h), h @ [g])
           \<and> (h @ [g]) ! self = h ! self
           \<and> domain g = domain (h ! self)
           \<and> outcomeSpace g = (outcomeSpace (h ! self))(V \<mapsto> [x])
           \<and> outcomeSpace g V = Some [x]
           \<and> length (shape (table g)) = length (shape (table (h ! self)))
           \<and> shape (table g) = (shape (table (h ! self)))[find_pos (domain (h ! self)) V := 1]
           \<and> shape (table g) ! find_pos (domain g) V = 1
           \<and> (\<forall>idx. valid_index (shape (table g)) idx \<longrightarrow>
                 cell (table g) idx =
                   cell (table (h ! self)) (idx[find_pos (domain (h ! self)) V := find_pos s x]))
           \<and> np_sum (table g) =
               (\<Sum>idx\<leftarrow>filter (\<lambda>idx. idx ! find_pos (domain (h ! self)) V = find_pos s x)
                          (all_indices (shape (table (h ! self)))).
                  cell (table (h ! self)) idx)
           \<and> wf_Factor g"
proof -
  let ?f = "h ! self"
  let ?k = "find_pos (domain ?f) V" and ?p = "find_pos s x"
  let ?t = "tabulate ((shape (table ?f))[?k := Suc 0]) (\<lambda>idx. cell (table ?f) (idx[?k := ?p]))"
  let ?g = "?f\<lparr>table := ?t, outcomeSpace := (outcomeSpace ?f)(V \<mapsto> [x])\<rparr>"
  have inv: "shape_invariant ?f" and dist: "distinct (domain ?f)"
    using assms(2) by (simp_all add: wf_Factor_def)
  have k: "?k < length (shape (table ?f))"
    using inv assms(3) by (simp add: shape_invariant_length find_pos_less)
  have p: "?p < shape (table ?f) ! ?k"
    using inv assms(3-5) by (simp add: shape_invariant_nth find_pos_less)
  have ev: "evidence ?f [(V, x)] = Inr ?g"
    using evidence_step_ok[OF inv dist assms(3-5) assms(4), of None]
    by (simp add: evidence_def copy_def)
  have call: "call_evidence h self [(V, x)] = (Inr (length h), h @ [?g])"
    by (simp add: call_evidence_def ev new_object_Inr)
  have same: "(h @ [?g]) ! self = ?f"
    using assms(1) by (simp add: nth_append)
  have sum: "np_sum ?t = (\<Sum>idx\<leftarrow>filter (\<lambda>idx. idx ! ?k = ?p) (all_indices (shape (table ?f))).
                            cell (table ?f) idx)"
    by (simp add: np_sum_tabulate filter_axis_all_indices[OF k p] comp_def)
  have "list_all2 (\<lambda>n var. case ((outcomeSpace ?f)(V \<mapsto> [x])) var of None \<Rightarrow> False
                            | Some s \<Rightarrow> n = length s)
          ((shape (table ?f))[?k := Suc 0]) (domain ?f)"
    unfolding list_all2_conv_all_nth
  proof (intro conjI allI impI)
    show "length ((shape (table ?f))[?k := Suc 0]) = length (domain ?f)"
      using inv by (simp add: shape_invariant_length)
  next
    fix i assume "i < length ((shape (table ?f))[?k := Suc 0])"
    then have i: "i < length (domain ?f)" "i < length (shape (table ?f))"
      using inv by (simp_all add: shape_invariant_length)
    have old: "case outcomeSpace ?f (domain ?f ! i) of None \<Rightarrow> False
               | Some s \<Rightarrow> shape (table ?f) ! i = length s"
      using inv i by (simp add: shape_invariant_def list_all2_conv_all_nth)
    have "domain ?f ! i = V \<longleftrightarrow> i = ?k"
      using find_pos_nth[OF dist i(1)] nth_find_pos[OF assms(3)] by auto
    then show "case ((outcomeSpace ?f)(V \<mapsto> [x])) (domain ?f ! i) of None \<Rightarrow> False
               | Some s \<Rightarrow> (shape (table ?f))[?k := Suc 0] ! i = length s"
      using old i by (cases "i = ?k") (auto simp: nth_list_update split: option.splits)
  qed
  then have wf: "wf_Factor ?g"
    using dist by (simp add: wf_Factor_def shape_invariant_def)
  have cells: "\<forall>idx. valid_index (shape ?t) idx \<longrightarrow> cell ?t idx = cell (table ?f) (idx[?k := ?p])"
    by (simp add: cell_tabulate)
  show ?thesis
    using call same sum wf cells k
    by (intro exI[of _ ?g]) simp
qed

lemma wf_GAB: "wf_Factor GAB"
  by (simp add: wf_Factor_def shape_invariant_def wf_array_def GAB_def)

theorem evidence_restricts_witness:
  "\<exists>g. call_evidence [GAB] 0 [(''B'', 2)] = (Inr 1, [GAB, g])
      \<and> outcomeSpace g ''B'' = Some [2]
      \<and> shape (table g) = [2, 1]
      \<and> np_sum (table g) = 9"
proof -
  have h: "0 < length [GAB]" "wf_Factor ([GAB] ! 0)" "''B'' \<in> set (domain ([GAB] ! 0))"
    "outcomeSpace ([GAB] ! 0) ''B'' = Some [0, 1, 2]" "2 \<in> set [0, 1, 2 :: int]"
    by (simp_all add: wf_GAB) (simp_all add: GAB_def)
  obtain g where g: "call_evidence [GAB] 0 [(''B'', 2)] = (Inr (length [GAB]), [GAB] @ [g])"
    "outcomeSpace g ''B'' = Some [2]"
    "shape (table g) = (shape (table ([GAB] ! 0)))[find_pos (domain ([GAB] ! 0)) ''B'' := 1]"
    "np_sum (table g) =
       (\<Sum>idx\<leftarrow>filter (\<lambda>idx. idx ! find_pos (domain ([GAB] ! 0)) ''B'' = find_pos [0, 1, 2] (2::int))
                  (all_indices (shape (table ([GAB] ! 0)))).
          cell (table ([GAB] ! 0)) idx)"
    using evidence_restricts[OF h] by blast
  show ?thesis
    using g by (intro exI[of _ g]) (simp add: GAB_def find_pos_def array_eval)
qed

section \<open>join: the outcome space of the result\<close>

lemmas join_eval = join_def Let_def insert_Diff_if lookup_def py_index_def find_pos_def
  expand_dims_last_def np_transpose_def np_multiply_def broadcast_shape_def pad_shape_def
  broadcast_index_def init_def np_copy_def array_eval eval_nat_numeral

lemma wf_A1: "wf_Factor A1"
  by (simp add: wf_Factor_def shape_invariant_def wf_array_def A1_def)

lemma wf_B1: "wf_Factor B1"
  by (simp add: wf_Factor_def shape_invariant_def wf_array_def B1_def)

lemma join_A1_B1:
  "map_sum id (\<lambda>f. (domain f, table f, outcomeSpace f 0, outcomeSpace f 1))
     (join sorted_list_of_set A1 B1)
   = Inr ([0, 1], \<lparr>shape = [1, 2], data = [3 / 2, 3 / 2]\<rparr>, Some [0, 1], Some [0, 1])"
  by (simp add: A1_def B1_def join_eval)

lemma join_B1_A1:
  "map_sum id (\<lambda>f. (domain f, table f, outcomeSpace f 0, outcomeSpace f 1))
     (join sorted_list_of_set B1 A1)
   = Inr ([1, 0], \<lparr>shape = [2, 1], data = [3 / 2, 3 / 2]\<rparr>, Some [1], Some [0, 1])"
  by (simp add: A1_def B1_def join_eval)

text \<open>
  Claim C10. \<open>A1\<close> and \<open>B1\<close> satisfy the invariants and share no domain variable, so
  they are compatible. \<open>A1.join(B1)\<close> returns a factor over \<open>(0, 1)\<close> whose table has
  shape \<open>(1, 2)\<close> and whose outcome space gives variable 0 the two outcomes \<open>(0, 1)\<close>
  of \<open>B1\<close>'s dictionary: the entry of \<open>other\<close> has replaced the entry of \<open>self\<close>, and
  the result does not satisfy the shape invariant.
\<close>

theorem join_breaks_shape_invariant:
  "wf_Factor A1 \<and> wf_Factor B1
   \<and> map_sum id (\<lambda>f. (domain f, shape (table f), outcomeSpace f 0)) (join sorted_list_of_set A1 B1)
       = Inr ([0, 1], [1, 2], Some [0, 1])
   \<and> map_sum id shape_invariant (join sorted_list_of_set A1 B1) = Inr False"
proof -
  obtain f where f: "join sorted_list_of_set A1 B1 = Inr f"
    using join_A1_B1 by (cases "join sorted_list_of_set A1 B1") simp_all
  then have "domain f = [0, 1]" "table f = \<lparr>shape = [1, 2], data = [3 / 2, 3 / 2]\<rparr>"
    "outcomeSpace f 0 = Some [0, 1]"
    using join_A1_B1 by simp_all
  then show ?thesis
    by (simp add: f wf_A1 wf_B1 shape_invariant_def)
qed

text \<open>
  Claim C1. For the same factors and the joint assignment of 1 to variable 0 and 0 to
  variable 1, \<open>A1\<close> holds 3 and \<open>B1\<close> holds \<open>1/2\<close>; reading \<open>A1.join(B1)\<close> at the
  assignment raises \<open>IndexError\<close>, while \<open>B1.join(A1)\<close> holds the product \<open>3/2\<close>.
\<close>

theorem join_value_unreadable:
  "getitem A1 (Tuple [1]) = Inr (scalar 3)
   \<and> getitem B1 (Tuple [0]) = Inr (scalar (1 / 2))
   \<and> then_getitem (join sorted_list_of_set A1 B1) (Tuple [1, 0]) = Inl IndexError
   \<and> then_getitem (join sorted_list_of_set B1 A1) (Tuple [0, 1]) = Inr (scalar (3 / 2))"
proof -
  obtain f where f: "join sorted_list_of_set A1 B1 = Inr f"
    using join_A1_B1 by (cases "join sorted_list_of_set A1 B1") simp_all
  then have ff: "domain f = [0, 1]" "table f = \<lparr>shape = [1, 2], data = [3 / 2, 3 / 2]\<rparr>"
    "outcomeSpace f 0 = Some [0, 1]" "outcomeSpace f 1 = Some [0, 1]"
    using join_A1_B1 by simp_all
  obtain g where g: "join sorted_list_of_set B1 A1 = Inr g"
    using join_B1_A1 by (cases "join sorted_list_of_set B1 A1") simp_all
  then have gg: "domain g = [1, 0]" "table g = \<lparr>shape = [2, 1], data = [3 / 2, 3 / 2]\<rparr>"
    "outcomeSpace g 0 = Some [1]" "outcomeSpace g 1 = Some [0, 1]"
    using join_B1_A1 by simp_all
  have 1: "getitem A1 (Tuple [1]) = Inr (scalar 3)"
    by (simp add: getitem_def key_indices_def A1_def lookup_def py_index_def find_pos_def
        nd_getitem_def scalar_def array_eval)
  have 2: "getitem B1 (Tuple [0]) = Inr (scalar (1 / 2))"
    by (simp add: getitem_def key_indices_def B1_def lookup_def py_index_def find_pos_def
        nd_getitem_def scalar_def array_eval)
  have 3: "getitem f (Tuple [1, 0]) = Inl IndexError"
    by (simp add: getitem_def key_indices_def ff lookup_def py_index_def find_pos_def
        nd_getitem_def array_eval)
  have 4: "getitem g (Tuple [0, 1]) = Inr (scalar (3 / 2))"
    by (simp add: getitem_def key_indices_def gg lookup_def py_index_def find_pos_def
        nd_getitem_def scalar_def array_eval)
  show ?thesis
    by (simp add: 1 2 3 4 f g then_getitem_def)
qed

section \<open>Expanding, transposing and multiplying arrays\<close>

lemma ravel_append:
  "length idx = length sh \<Longrightarrow> ravel acc (sh @ sh') (idx @ idx') = ravel (ravel acc sh idx) sh' idx'"
  by (induction acc sh idx rule: ravel.induct) simp_all

lemma ravel_ones: "ravel acc (replicate k (Suc 0)) (replicate k 0) = acc"
  by (induction k arbitrary: acc) simp_all

lemma shape_expand_dims: "shape ((expand_dims_last ^^ k) a) = shape a @ replicate k 1"
  by (induction k) (simp_all add: expand_dims_last_def replicate_append_same)

lemma data_expand_dims: "data ((expand_dims_last ^^ k) a) = data a"
  by (induction k) (simp_all add: expand_dims_last_def)

lemma wf_expand_dims: "wf_array ((expand_dims_last ^^ k) a) = wf_array a"
  by (simp add: wf_array_def shape_expand_dims data_expand_dims)

lemma cell_expand_dims:
  "length idx = length (shape a) \<Longrightarrow>
   cell ((expand_dims_last ^^ k) a) (idx @ replicate k 0) = cell a idx"
  by (simp add: cell_def shape_expand_dims data_expand_dims flat_index_def ravel_append ravel_ones)

lemma broadcast_dims_ok:
  assumes "length sa = length sb"
    and "\<forall>i < length sa. sa ! i = sb ! i \<or> sb ! i = 1 \<or> sa ! i = 1"
  shows "broadcast_dims sa sb = Inr (map2 (\<lambda>n m. if m = 1 then n else m) sa sb)"
  using assms
proof (induction sa sb rule: list_induct2)
  case Nil
  then show ?case by simp
next
  case (Cons n ns m ms)
  have "\<forall>i < length ns. ns ! i = ms ! i \<or> ms ! i = 1 \<or> ns ! i = 1"
    using Cons.prems by auto
  then have "broadcast_dims ns ms = Inr (map2 (\<lambda>n m. if m = 1 then n else m) ns ms)"
    by (rule Cons.IH)
  moreover have "n = m \<or> m = 1 \<or> n = 1"
    using Cons.prems by auto
  ultimately show ?case by auto
qed

lemma broadcast_shape_same_rank:
  "length sa = length sb \<Longrightarrow> broadcast_shape sa sb = broadcast_dims sa sb"
  by (simp add: broadcast_shape_def pad_shape_def)

lemma np_multiply_ok:
  assumes "length (shape a) = length (shape b)"
    and "\<forall>i < length (shape a). shape a ! i = shape b ! i \<or> shape b ! i = 1 \<or> shape a ! i = 1"
  shows "np_multiply a b =
           Inr (tabulate (map2 (\<lambda>n m. if m = 1 then n else m) (shape a) (shape b))
                  (\<lambda>idx. cell a (broadcast_index (shape a) idx)
                         * cell b (broadcast_index (shape b) idx)))"
  using assms by (simp add: np_multiply_def broadcast_shape_same_rank broadcast_dims_ok)

lemma broadcast_index_same_rank:
  "length idx = length sh \<Longrightarrow>
   broadcast_index sh idx = map2 (\<lambda>n i. if n = 1 then 0 else i) sh idx"
  by (simp add: broadcast_index_def)

text \<open>Positions under a permutation.\<close>

lemma find_pos_inj:
  "x \<in> set xs \<Longrightarrow> y \<in> set xs \<Longrightarrow> find_pos xs x = find_pos xs y \<Longrightarrow> x = y"
  by (metis nth_find_pos)

lemma distinct_map_find_pos:
  assumes "distinct new" and "set new \<subseteq> set old"
  shows "distinct (map (find_pos old) new)"
  using assms by (auto simp: distinct_map inj_on_def intro: find_pos_inj[of _ old])

lemma find_pos_perm:
  assumes "distinct old" and "distinct new" and "set new = set old" and "j < length old"
  shows "find_pos (map (find_pos old) new) j = find_pos new (old ! j)"
proof -
  let ?perm = "map (find_pos old) new"
  have mem: "old ! j \<in> set new"
    using assms(3,4) by simp
  let ?i = "find_pos new (old ! j)"
  have i: "?i < length new" and ni: "new ! ?i = old ! j"
    using mem by (simp_all add: find_pos_less nth_find_pos)
  have "?perm ! ?i = j"
    using i ni assms(1,4) by (simp add: find_pos_nth)
  moreover have "distinct ?perm"
    using assms(2,3) by (simp add: distinct_map_find_pos)
  ultimately show ?thesis
    using find_pos_nth[of ?perm ?i] i by simp
qed

lemma np_transpose_ok:
  assumes "length axes = length (shape a)" and "distinct axes"
    and "\<forall>j \<in> set axes. j < length (shape a)"
  shows "np_transpose axes a =
           Inr (tabulate (map ((!) (shape a)) axes)
                  (\<lambda>idx. cell a (map (\<lambda>j. idx ! find_pos axes j) [0..<length axes])))"
  using assms by (simp add: np_transpose_def list_all_iff)


section \<open>join: the table of the result\<close>

lemma shape_invariant_shape:
  assumes "shape_invariant f"
  shows "shape (table f) = map (sizes f) (domain f)"
proof (rule nth_equalityI)
  show "length (shape (table f)) = length (map (sizes f) (domain f))"
    using assms by (simp add: shape_invariant_length)
next
  fix i assume "i < length (shape (table f))"
  then have i: "i < length (domain f)"
    using assms by (simp add: shape_invariant_length)
  have "case outcomeSpace f (domain f ! i) of None \<Rightarrow> False
        | Some s \<Rightarrow> shape (table f) ! i = length s"
    using assms i by (simp add: shape_invariant_def list_all2_conv_all_nth)
  then show "shape (table f) ! i = map (sizes f) (domain f) ! i"
    using i by (auto simp: sizes_def split: option.splits)
qed

lemma shape_invariant_Some:
  assumes "shape_invariant f" and "v \<in> set (domain f)"
  shows "\<exists>s. outcomeSpace f v = Some s"
proof -
  obtain i where i: "i < length (domain f)" "domain f ! i = v"
    using assms(2) by (auto simp: in_set_conv_nth)
  have "case outcomeSpace f (domain f ! i) of None \<Rightarrow> False
        | Some s \<Rightarrow> shape (table f) ! i = length s"
    using assms(1) i(1) unfolding shape_invariant_def by (rule list_all2_nthD2)
  then show ?thesis
    unfolding i(2) by (cases "outcomeSpace f v") simp_all
qed

text \<open>An array over the variables \<open>vs\<close>, given \<open>k\<close> more axes, as an array over \<open>vs @ ws\<close>.\<close>

lemma expanded_shape:
  assumes "shape_invariant f" and "set ws \<inter> set (domain f) = {}"
  shows "shape ((expand_dims_last ^^ length ws) (table f)) = map (sizes f) (domain f @ ws)"
proof -
  have "map (sizes f) ws = replicate (length ws) 1"
    using assms(2) by (auto simp: map_replicate_const[symmetric] sizes_def intro!: map_cong)
  then show ?thesis
    by (simp add: shape_expand_dims shape_invariant_shape[OF assms(1)])
qed

lemma expanded_cell:
  assumes "shape_invariant f" and "\<forall>w \<in> set ws. \<rho> w = 0"
  shows "cell ((expand_dims_last ^^ length ws) (table f)) (map \<rho> (domain f @ ws))
         = cell (table f) (map \<rho> (domain f))"
proof -
  have "map \<rho> ws = replicate (length ws) 0"
    using assms(2) by (auto simp: map_replicate_const[symmetric] intro!: map_cong)
  then show ?thesis
    using cell_expand_dims[of "map \<rho> (domain f)" "table f" "length ws"] assms(1)
    by (simp add: shape_invariant_length)
qed


text \<open>Arrays whose axes are named by a list of variables.\<close>

lemma valid_index_map:
  "valid_index (map sz vs) (map \<rho> vs) \<longleftrightarrow> (\<forall>v \<in> set vs. \<rho> v < sz v)"
  by (induction vs) (simp_all add: valid_index_def)

lemma transposed_by_name:
  assumes sh: "shape Y = map sz old"
    and "distinct old" and "distinct new" and "set new = set old"
  shows "\<exists>Y'. np_transpose (map (find_pos old) new) Y = Inr Y'
           \<and> shape Y' = map sz new
           \<and> (\<forall>\<rho>. (\<forall>v \<in> set new. \<rho> v < sz v) \<longrightarrow> cell Y' (map \<rho> new) = cell Y (map \<rho> old))"
proof -
  let ?perm = "map (find_pos old) new"
  let ?Y' = "tabulate (map ((!) (shape Y)) ?perm)
               (\<lambda>idx. cell Y (map (\<lambda>j. idx ! find_pos ?perm j) [0..<length ?perm]))"
  have len: "length new = length old"
    using assms(2-4) by (metis distinct_card)
  have less: "\<forall>j \<in> set ?perm. j < length (shape Y)"
    using assms(4) by (auto simp: sh find_pos_less)
  have dist: "distinct ?perm"
    using assms(3,4) by (simp add: distinct_map_find_pos)
  have tr: "np_transpose ?perm Y = Inr ?Y'"
    using np_transpose_ok[of ?perm Y] less dist by (simp add: sh len)
  have shape: "map ((!) (shape Y)) ?perm = map sz new"
    using assms(4) by (auto simp: sh find_pos_less nth_find_pos)
  have "cell ?Y' (map \<rho> new) = cell Y (map \<rho> old)" if "\<forall>v \<in> set new. \<rho> v < sz v" for \<rho>
  proof -
    have "valid_index (map ((!) (shape Y)) ?perm) (map \<rho> new)"
      using that by (simp only: shape valid_index_map)
    then have "cell ?Y' (map \<rho> new)
               = cell Y (map (\<lambda>j. map \<rho> new ! find_pos ?perm j) [0..<length ?perm])"
      by (rule cell_tabulate)
    also have "map (\<lambda>j. map \<rho> new ! find_pos ?perm j) [0..<length ?perm] = map \<rho> old"
    proof (rule nth_equalityI)
      show "length (map (\<lambda>j. map \<rho> new ! find_pos ?perm j) [0..<length ?perm]) = length (map \<rho> old)"
        by (simp add: len)
    next
      fix j assume "j < length (map (\<lambda>j. map \<rho> new ! find_pos ?perm j) [0..<length ?perm])"
      then have j: "j < length old" by (simp add: len)
      have mem: "old ! j \<in> set new"
        using assms(4) j by simp
      have fp: "find_pos ?perm j = find_pos new (old ! j)"
        using find_pos_perm[OF assms(2-4) j] .
      have i: "find_pos new (old ! j) < length new" "new ! find_pos new (old ! j) = old ! j"
        using mem by (simp_all add: find_pos_less nth_find_pos)
      show "map (\<lambda>j. map \<rho> new ! find_pos ?perm j) [0..<length ?perm] ! j = map \<rho> old ! j"
        using j len i by (simp add: fp)
    qed
    finally show ?thesis .
  qed
  then show ?thesis
    using tr shape by (intro exI[of _ ?Y']) simp
qed

lemma map2_map_map: "map2 f (map g vs) (map h vs) = map (\<lambda>v. f (g v) (h v)) vs"
  by (induction vs) simp_all

lemma multiplied_by_name:
  assumes "shape X = map szX vs" and "shape Y = map szY vs"
    and "\<forall>v \<in> set vs. szX v = szY v \<or> szY v = 1 \<or> szX v = 1"
  shows "\<exists>T. np_multiply X Y = Inr T \<and> wf_array T
           \<and> shape T = map (\<lambda>v. if szY v = 1 then szX v else szY v) vs
           \<and> (\<forall>\<pi>. (\<forall>v \<in> set vs. \<pi> v < (if szY v = 1 then szX v else szY v)) \<longrightarrow>
                 cell T (map \<pi> vs)
                 = cell X (map (\<lambda>v. if szX v = 1 then 0 else \<pi> v) vs)
                   * cell Y (map (\<lambda>v. if szY v = 1 then 0 else \<pi> v) vs))"
proof -
  let ?R = "map2 (\<lambda>n m. if m = 1 then n else m) (shape X) (shape Y)"
  let ?T = "tabulate ?R (\<lambda>idx. cell X (broadcast_index (shape X) idx)
                               * cell Y (broadcast_index (shape Y) idx))"
  have "np_multiply X Y = Inr ?T"
    using assms by (intro np_multiply_ok) simp_all
  moreover have R: "?R = map (\<lambda>v. if szY v = 1 then szX v else szY v) vs"
    by (simp only: assms(1,2) map2_map_map)
  moreover have "cell ?T (map \<pi> vs)
                 = cell X (map (\<lambda>v. if szX v = 1 then 0 else \<pi> v) vs)
                   * cell Y (map (\<lambda>v. if szY v = 1 then 0 else \<pi> v) vs)"
    if "\<forall>v \<in> set vs. \<pi> v < (if szY v = 1 then szX v else szY v)" for \<pi>
  proof -
    have "valid_index ?R (map \<pi> vs)"
      using that by (simp only: R valid_index_map)
    then have "cell ?T (map \<pi> vs) = cell X (broadcast_index (shape X) (map \<pi> vs))
                                     * cell Y (broadcast_index (shape Y) (map \<pi> vs))"
      by (rule cell_tabulate)
    moreover have "broadcast_index (shape X) (map \<pi> vs) = map (\<lambda>v. if szX v = 1 then 0 else \<pi> v) vs"
      by (simp add: broadcast_index_same_rank assms(1)) (simp only: map2_map_map)
    moreover have "broadcast_index (shape Y) (map \<pi> vs) = map (\<lambda>v. if szY v = 1 then 0 else \<pi> v) vs"
      by (simp add: broadcast_index_same_rank assms(2)) (simp only: map2_map_map)
    ultimately show ?thesis by simp
  qed
  ultimately show ?thesis
    by (intro exI[of _ ?T]) (simp del: One_nat_def)
qed


lemma sizes_compatible:
  "compatible A B \<Longrightarrow> v \<in> set (domain A) \<Longrightarrow> v \<in> set (domain B) \<Longrightarrow> sizes A v = sizes B v"
  by (auto simp: compatible_def list_all_iff sizes_def)

lemma join_result:
  assumes enum: "set_iteration enum"
    and A: "wf_Factor A" and B: "wf_Factor B" and compat: "compatible A B"
  shows "\<exists>T. join enum A B =
               Inr \<lparr>domain = domain A @ enum (set (domain B) - set (domain A)),
                    outcomeSpace = outcomeSpace A ++ outcomeSpace B, table = T\<rparr>
           \<and> wf_array T
           \<and> shape T = map (\<lambda>v. if v \<in> set (domain A) then sizes A v else sizes B v)
                          (domain A @ enum (set (domain B) - set (domain A)))
           \<and> (\<forall>\<pi>. (\<forall>v \<in> set (domain A). \<pi> v < sizes A v)
                    \<and> (\<forall>v \<in> set (domain B). \<pi> v < sizes B v) \<longrightarrow>
                 cell T (map \<pi> (domain A @ enum (set (domain B) - set (domain A))))
                 = cell (table A) (map \<pi> (domain A)) * cell (table B) (map \<pi> (domain B)))"
proof -
  let ?dA = "domain A" and ?dB = "domain B"
  define N where "N = enum (set ?dB - set ?dA)"
  define M where "M = enum (set ?dA - set ?dB)"
  define new where "new = ?dA @ N"
  define old where "old = ?dB @ M"
  have invA: "shape_invariant A" and dA: "distinct ?dA"
    and invB: "shape_invariant B" and dB: "distinct ?dB"
    using A B by (simp_all add: wf_Factor_def)
  have N: "set N = set ?dB - set ?dA" "distinct N"
    and M: "set M = set ?dA - set ?dB" "distinct M"
    using enum by (simp_all add: N_def M_def set_iteration_def)
  have cardN: "card (set ?dB - set ?dA) = length N"
    using N by (metis distinct_card)
  have cardM: "card (set ?dA - set ?dB) = length M"
    using M by (metis distinct_card)
  have dnew: "distinct new" and dold: "distinct old" and sets: "set new = set old"
    using N M dA dB by (auto simp: new_def old_def)
  \<comment> \<open>the compatibility check passes\<close>
  let ?S = "set ?dB \<inter> set ?dA"
  have S: "set (enum ?S) = ?S"
    using enum by (simp add: set_iteration_def)
  have "\<forall>v \<in> set (enum ?S). outcomeSpace A v \<noteq> None \<and> outcomeSpace B v \<noteq> None"
    using shape_invariant_Some[OF invA] shape_invariant_Some[OF invB] by (auto simp: S)
  then have "check_outcomeSpaces A B (enum ?S) =
          (if \<exists>v \<in> set (enum ?S). outcomeSpace A v \<noteq> outcomeSpace B v
           then Inl IndexError else Inr ())"
    by (rule check_outcomeSpaces_result)
  then have check: "check_outcomeSpaces A B (enum ?S) = Inr ()"
    using compat by (auto simp: S compatible_def list_all_iff)
  \<comment> \<open>the axes of the two expanded tables\<close>
  let ?X = "(expand_dims_last ^^ length N) (table A)"
  let ?Y = "(expand_dims_last ^^ length M) (table B)"
  have shX: "shape ?X = map (sizes A) new"
    unfolding new_def using N by (intro expanded_shape[OF invA]) auto
  have shY: "shape ?Y = map (sizes B) old"
    unfolding old_def using M by (intro expanded_shape[OF invB]) auto
  have order: "sequence (map (py_index old) new) = Inr (map (find_pos old) new)"
    by (rule sequence_map_Inr) (simp add: py_index_def sets)
  obtain Y' where Y': "np_transpose (map (find_pos old) new) ?Y = Inr Y'"
    "shape Y' = map (sizes B) new"
    "\<forall>\<rho>. (\<forall>v \<in> set new. \<rho> v < sizes B v) \<longrightarrow> cell Y' (map \<rho> new) = cell ?Y (map \<rho> old)"
    using transposed_by_name[OF shY dold dnew sets] by blast
  have ok: "\<forall>v \<in> set new. sizes A v = sizes B v \<or> sizes B v = 1 \<or> sizes A v = 1"
    using sizes_compatible[OF compat] by (auto simp: sizes_def)
  obtain T where T: "np_multiply ?X Y' = Inr T" "wf_array T"
    "shape T = map (\<lambda>v. if sizes B v = 1 then sizes A v else sizes B v) new"
    "\<forall>\<pi>. (\<forall>v \<in> set new. \<pi> v < (if sizes B v = 1 then sizes A v else sizes B v)) \<longrightarrow>
         cell T (map \<pi> new) = cell ?X (map (\<lambda>v. if sizes A v = 1 then 0 else \<pi> v) new)
                              * cell Y' (map (\<lambda>v. if sizes B v = 1 then 0 else \<pi> v) new)"
    using multiplied_by_name[OF shX Y'(2) ok] by blast
  have join: "join enum A B =
          Inr \<lparr>domain = new, outcomeSpace = outcomeSpace A ++ outcomeSpace B, table = T\<rparr>"
    using check order Y'(1) T(1)
    by (simp add: join_def Let_def cardN cardM N_def[symmetric] M_def[symmetric]
        new_def[symmetric] old_def[symmetric] init_table)
  have szJ: "(if sizes B v = 1 then sizes A v else sizes B v)
             = (if v \<in> set ?dA then sizes A v else sizes B v)" for v
    using sizes_compatible[OF compat, of v] by (auto simp: sizes_def)
  have shape: "shape T = map (\<lambda>v. if v \<in> set ?dA then sizes A v else sizes B v) new"
    by (simp only: T(3) szJ)
  have "cell T (map \<pi> new) = cell (table A) (map \<pi> ?dA) * cell (table B) (map \<pi> ?dB)"
    if pA: "\<forall>v \<in> set ?dA. \<pi> v < sizes A v" and pB: "\<forall>v \<in> set ?dB. \<pi> v < sizes B v" for \<pi>
  proof -
    let ?\<rho>A = "\<lambda>v. if sizes A v = 1 then 0 else \<pi> v"
    let ?\<rho>B = "\<lambda>v. if sizes B v = 1 then 0 else \<pi> v"
    have "\<forall>v \<in> set new. \<pi> v < (if v \<in> set ?dA then sizes A v else sizes B v)"
      using pA pB N by (auto simp: new_def)
    then have "\<forall>v \<in> set new. \<pi> v < (if sizes B v = 1 then sizes A v else sizes B v)"
      by (simp only: szJ)
    then have "cell T (map \<pi> new) = cell ?X (map ?\<rho>A new) * cell Y' (map ?\<rho>B new)"
      using T(4) by blast
    moreover have "cell ?X (map ?\<rho>A new) = cell (table A) (map ?\<rho>A ?dA)"
      unfolding new_def using N by (intro expanded_cell[OF invA]) (auto simp: sizes_def)
    moreover have "map ?\<rho>A ?dA = map \<pi> ?dA"
      using pA by (auto intro!: map_cong)
    moreover have "cell Y' (map ?\<rho>B new) = cell ?Y (map ?\<rho>B old)"
    proof -
      have "\<forall>v \<in> set new. ?\<rho>B v < sizes B v"
        using pB by (auto simp: sets old_def M sizes_def)
      then show ?thesis by (rule Y'(3)[THEN spec, THEN mp])
    qed
    moreover have "cell ?Y (map ?\<rho>B old) = cell (table B) (map ?\<rho>B ?dB)"
      unfolding old_def using M by (intro expanded_cell[OF invB]) (auto simp: sizes_def)
    moreover have "map ?\<rho>B ?dB = map \<pi> ?dB"
      using pB by (auto intro!: map_cong)
    ultimately show ?thesis by (simp only:)
  qed
  then show ?thesis
    using join T(2) shape unfolding new_def N_def by (intro exI[of _ T]) simp
qed

section \<open>join under agreeing outcome spaces\<close>

text \<open>
  When the outcome space of \<open>other\<close> does not redefine a variable of the domain of
  \<open>self\<close>, the join satisfies the invariants and holds, at every joint assignment, the
  product of the operands' values.
\<close>

lemma agrees_compatible:
  assumes "outcomeSpace_agrees A B" and "shape_invariant B"
  shows "compatible A B"
  using assms(1) shape_invariant_Some[OF assms(2)]
  by (fastforce simp: outcomeSpace_agrees_def compatible_def list_all_iff)

lemma joined_outcomeSpace_self:
  assumes "outcomeSpace_agrees A B" and "v \<in> set (domain A)"
  shows "(outcomeSpace A ++ outcomeSpace B) v = outcomeSpace A v"
  using assms
  by (auto simp: outcomeSpace_agrees_def list_all_iff map_add_def split: option.splits)

lemma joined_outcomeSpace_other:
  assumes "shape_invariant B" and "v \<in> set (domain B)"
  shows "(outcomeSpace A ++ outcomeSpace B) v = outcomeSpace B v"
  using shape_invariant_Some[OF assms] by (auto simp: map_add_def)

lemma join_wf:
  assumes "set_iteration enum" and "wf_Factor A" and "wf_Factor B"
    and "outcomeSpace_agrees A B"
  shows "\<exists>J. join enum A B = Inr J \<and> wf_Factor J"
proof -
  have invA: "shape_invariant A" and invB: "shape_invariant B"
    using assms(2,3) by (simp_all add: wf_Factor_def)
  let ?new = "domain A @ enum (set (domain B) - set (domain A))"
  let ?os = "outcomeSpace A ++ outcomeSpace B"
  obtain T where T: "join enum A B = Inr \<lparr>domain = ?new, outcomeSpace = ?os, table = T\<rparr>"
    "wf_array T"
    "shape T = map (\<lambda>v. if v \<in> set (domain A) then sizes A v else sizes B v) ?new"
    using join_result[OF assms(1-3) agrees_compatible[OF assms(4) invB]] by blast
  have N: "set (enum (set (domain B) - set (domain A))) = set (domain B) - set (domain A)"
    "distinct (enum (set (domain B) - set (domain A)))"
    using assms(1) by (simp_all add: set_iteration_def)
  have "case ?os v of None \<Rightarrow> False
        | Some s \<Rightarrow> (if v \<in> set (domain A) then sizes A v else sizes B v) = length s"
    if "v \<in> set ?new" for v
  proof (cases "v \<in> set (domain A)")
    case True
    then show ?thesis
      using shape_invariant_Some[OF invA True] joined_outcomeSpace_self[OF assms(4) True]
      by (auto simp: sizes_def)
  next
    case False
    then have vB: "v \<in> set (domain B)" using that N by auto
    then show ?thesis
      using False shape_invariant_Some[OF invB vB] joined_outcomeSpace_other[OF invB vB, of A]
      by (auto simp: sizes_def)
  qed
  then have "list_all2 (\<lambda>n v. case ?os v of None \<Rightarrow> False | Some s \<Rightarrow> n = length s)
               (shape T) ?new"
    unfolding T(3) by (simp only: list_all2_map1 list_all2_same) blast
  moreover have "distinct ?new"
    using assms(2) N by (auto simp: wf_Factor_def)
  ultimately show ?thesis
    using T(1,2) by (simp add: wf_Factor_def shape_invariant_def)
qed


section \<open>Reading a factor at an assignment\<close>

lemma position_less:
  assumes "assignment_for f \<sigma>" and "v \<in> set (domain f)"
  shows "position f \<sigma> v < sizes f v"
  using assms
  by (auto simp: assignment_for_def list_all_iff position_def sizes_def find_pos_less
      split: option.splits)

lemma key_indices_assignment:
  assumes "assignment_for f \<sigma>"
  shows "key_indices f (map \<sigma> (domain f)) = Inr (map (position f \<sigma>) (domain f))"
proof -
  have "(case p of (i, var) \<Rightarrow>
            case lookup (outcomeSpace f) var of
              Inl e \<Rightarrow> Inl e
            | Inr s \<Rightarrow> if i < length (map \<sigma> (domain f)) then py_index s (map \<sigma> (domain f) ! i)
                       else Inl IndexError)
        = Inr (position f \<sigma> (snd p))"
    if "p \<in> set (enumerate 0 (domain f))" for p
  proof -
    obtain i var where p: "p = (i, var)" by (cases p)
    have i: "i < length (domain f)" "domain f ! i = var"
      using that by (auto simp: p in_set_enumerate_eq)
    then have "var \<in> set (domain f)" by auto
    then obtain s where s: "outcomeSpace f var = Some s" "\<sigma> var \<in> set s"
      using assms by (auto simp: assignment_for_def list_all_iff split: option.splits)
    show ?thesis
      using i s by (simp add: p lookup_def py_index_def position_def)
  qed
  then have "key_indices f (map \<sigma> (domain f))
             = Inr (map (\<lambda>p. position f \<sigma> (snd p)) (enumerate 0 (domain f)))"
    unfolding key_indices_def by (intro sequence_map_Inr) blast
  moreover have "map (\<lambda>p. position f \<sigma> (snd p)) (enumerate 0 (domain f))
             = map (position f \<sigma>) (domain f)"
  proof -
    have "map (\<lambda>p. position f \<sigma> (snd p)) (enumerate 0 (domain f))
          = map (position f \<sigma> \<circ> snd) (enumerate 0 (domain f))"
      by (simp only: comp_def)
    also have "\<dots> = map (position f \<sigma>) (map snd (enumerate 0 (domain f)))"
      by (simp only: map_map)
    also have "\<dots> = map (position f \<sigma>) (domain f)"
      by (simp only: map_snd_enumerate)
    finally show ?thesis .
  qed
  ultimately show ?thesis
    by (simp only:)
qed

lemma nd_getitem_full:
  assumes "valid_index (shape a) ix"
  shows "nd_getitem a ix = Inr (scalar (cell a ix))"
proof -
  have len: "length ix = length (shape a)"
    using assms by (rule valid_index_length)
  then show ?thesis
    using assms
    by (simp add: nd_getitem_def valid_index_def tabulate_def all_indices_Nil scalar_def)
qed

lemma getitem_assignment:
  assumes "shape_invariant f" and "assignment_for f \<sigma>"
  shows "getitem f (Tuple (map \<sigma> (domain f)))
         = Inr (scalar (cell (table f) (map (position f \<sigma>) (domain f))))"
proof -
  have "valid_index (shape (table f)) (map (position f \<sigma>) (domain f))"
    using position_less[OF assms(2)]
    by (simp add: shape_invariant_shape[OF assms(1)] valid_index_map)
  then show ?thesis
    by (simp add: getitem_def key_indices_assignment[OF assms(2)] nd_getitem_full)
qed


section \<open>join: the value at a joint assignment\<close>

lemma join_value:
  assumes "set_iteration enum" and "wf_Factor A" and "wf_Factor B"
    and "outcomeSpace_agrees A B"
    and "assignment_for A \<sigma>" and "assignment_for B \<sigma>"
  shows "\<exists>J. join enum A B = Inr J \<and> wf_Factor J \<and> assignment_for J \<sigma>
           \<and> getitem J (Tuple (map \<sigma> (domain J)))
               = Inr (scalar (cell (table A) (map (position A \<sigma>) (domain A))
                              * cell (table B) (map (position B \<sigma>) (domain B))))
           \<and> getitem A (Tuple (map \<sigma> (domain A)))
               = Inr (scalar (cell (table A) (map (position A \<sigma>) (domain A))))
           \<and> getitem B (Tuple (map \<sigma> (domain B)))
               = Inr (scalar (cell (table B) (map (position B \<sigma>) (domain B))))"
proof -
  have invA: "shape_invariant A" and invB: "shape_invariant B"
    using assms(2,3) by (simp_all add: wf_Factor_def)
  let ?new = "domain A @ enum (set (domain B) - set (domain A))"
  let ?os = "outcomeSpace A ++ outcomeSpace B"
  obtain T where T: "join enum A B = Inr \<lparr>domain = ?new, outcomeSpace = ?os, table = T\<rparr>"
    and cells: "\<forall>\<pi>. (\<forall>v \<in> set (domain A). \<pi> v < sizes A v)
                    \<and> (\<forall>v \<in> set (domain B). \<pi> v < sizes B v) \<longrightarrow>
                 cell T (map \<pi> ?new)
                 = cell (table A) (map \<pi> (domain A)) * cell (table B) (map \<pi> (domain B))"
    using join_result[OF assms(1-3) agrees_compatible[OF assms(4) invB]] by blast
  let ?J = "\<lparr>domain = ?new, outcomeSpace = ?os, table = T\<rparr>"
  have wfJ: "wf_Factor ?J"
    using join_wf[OF assms(1-4)] T by auto
  have N: "set (enum (set (domain B) - set (domain A))) = set (domain B) - set (domain A)"
    using assms(1) by (simp add: set_iteration_def)
  have osA: "?os v = outcomeSpace A v" if "v \<in> set (domain A)" for v
    using joined_outcomeSpace_self[OF assms(4) that] .
  have osB: "?os v = outcomeSpace B v" if "v \<in> set (domain B)" for v
    using joined_outcomeSpace_other[OF invB that] .
  have posA: "position ?J \<sigma> v = position A \<sigma> v" if "v \<in> set (domain A)" for v
    using osA[OF that] by (simp add: position_def)
  have posB: "position ?J \<sigma> v = position B \<sigma> v" if "v \<in> set (domain B)" for v
    using osB[OF that] by (simp add: position_def)
  have asg: "assignment_for ?J \<sigma>"
    using assms(5,6) osA osB N by (auto simp: assignment_for_def list_all_iff)
  have "cell T (map (position ?J \<sigma>) ?new)
        = cell (table A) (map (position ?J \<sigma>) (domain A))
          * cell (table B) (map (position ?J \<sigma>) (domain B))"
    using position_less[OF assms(5)] position_less[OF assms(6)] posA posB
    by (intro cells[THEN spec, THEN mp]) simp
  moreover have "map (position ?J \<sigma>) (domain A) = map (position A \<sigma>) (domain A)"
    using posA by simp
  moreover have "map (position ?J \<sigma>) (domain B) = map (position B \<sigma>) (domain B)"
    using posB by simp
  ultimately have prod: "cell T (map (position ?J \<sigma>) ?new)
        = cell (table A) (map (position A \<sigma>) (domain A))
          * cell (table B) (map (position B \<sigma>) (domain B))"
    by (simp only:)
  have "getitem ?J (Tuple (map \<sigma> (domain ?J)))
        = Inr (scalar (cell (table ?J) (map (position ?J \<sigma>) (domain ?J))))"
    using wfJ asg by (intro getitem_assignment) (simp_all add: wf_Factor_def)
  then have "getitem ?J (Tuple (map \<sigma> (domain ?J)))
        = Inr (scalar (cell (table A) (map (position A \<sigma>) (domain A))
                       * cell (table B) (map (position B \<sigma>) (domain B))))"
    using prod by simp
  then show ?thesis
    using T wfJ asg getitem_assignment[OF invA assms(5)] getitem_assignment[OF invB assms(6)]
    by (intro exI[of _ ?J]) simp
qed

lemma join_value_commutes:
  assumes "set_iteration enum" and "wf_Factor A" and "wf_Factor B"
    and "outcomeSpace_agrees A B" and "outcomeSpace_agrees B A"
    and "assignment_for A \<sigma>" and "assignment_for B \<sigma>"
  shows "\<exists>J K. join enum A B = Inr J \<and> join enum B A = Inr K
           \<and> getitem J (Tuple (map \<sigma> (domain J))) = getitem K (Tuple (map \<sigma> (domain K)))"
proof -
  obtain J where J: "join enum A B = Inr J"
    "getitem J (Tuple (map \<sigma> (domain J)))
       = Inr (scalar (cell (table A) (map (position A \<sigma>) (domain A))
                      * cell (table B) (map (position B \<sigma>) (domain B))))"
    using join_value[OF assms(1,2,3,4,6,7)] by blast
  obtain K where K: "join enum B A = Inr K"
    "getitem K (Tuple (map \<sigma> (domain K)))
       = Inr (scalar (cell (table B) (map (position B \<sigma>) (domain B))
                      * cell (table A) (map (position A \<sigma>) (domain A))))"
    using join_value[OF assms(1,3,2,5,7,6)] by blast
  show ?thesis
    using J K by (intro exI[of _ J] exI[of _ K]) (simp add: mult.commute)
qed

section \<open>The operations preserve the invariants\<close>

text \<open>
  The constructor (given a table that fits, or no table), \<open>evidence\<close> on variables of
  the domain with values among their outcomes, and \<open>normalize\<close> return factors that
  satisfy the invariants; \<open>marginalize_wf\<close> says so for \<open>marginalize\<close>, and
  \<open>join_wf\<close> for \<open>join\<close> when the outcome space of \<open>other\<close> agrees.
\<close>

lemma restricted_wf:
  assumes "wf_Factor f" and "V \<in> set (domain f)"
  shows "wf_Factor (f\<lparr>table := tabulate ((shape (table f))[find_pos (domain f) V := Suc 0]) g,
                       outcomeSpace := (outcomeSpace f)(V \<mapsto> [x])\<rparr>)"
proof -
  let ?k = "find_pos (domain f) V"
  have inv: "shape_invariant f" and dist: "distinct (domain f)"
    using assms(1) by (simp_all add: wf_Factor_def)
  have "list_all2 (\<lambda>n var. case ((outcomeSpace f)(V \<mapsto> [x])) var of None \<Rightarrow> False
                            | Some s \<Rightarrow> n = length s)
          ((shape (table f))[?k := Suc 0]) (domain f)"
    unfolding list_all2_conv_all_nth
  proof (intro conjI allI impI)
    show "length ((shape (table f))[?k := Suc 0]) = length (domain f)"
      using inv by (simp add: shape_invariant_length)
  next
    fix i assume "i < length ((shape (table f))[?k := Suc 0])"
    then have i: "i < length (domain f)" "i < length (shape (table f))"
      using inv by (simp_all add: shape_invariant_length)
    have old: "case outcomeSpace f (domain f ! i) of None \<Rightarrow> False
               | Some s \<Rightarrow> shape (table f) ! i = length s"
      using inv i by (simp add: shape_invariant_def list_all2_conv_all_nth)
    have "domain f ! i = V \<longleftrightarrow> i = ?k"
      using find_pos_nth[OF dist i(1)] nth_find_pos[OF assms(2)] by auto
    then show "case ((outcomeSpace f)(V \<mapsto> [x])) (domain f ! i) of None \<Rightarrow> False
               | Some s \<Rightarrow> (shape (table f))[?k := Suc 0] ! i = length s"
      using old i by (cases "i = ?k") (auto simp: nth_list_update split: option.splits)
  qed
  then show ?thesis
    using dist by (simp add: wf_Factor_def shape_invariant_def)
qed

lemma evidence_loop_wf:
  assumes "wf_Factor f" and "domain f = domain self"
    and "evidence_in_domain self kwargs"
    and "\<forall>kv \<in> set kwargs. outcomeSpace f (fst kv) = outcomeSpace self (fst kv)"
  shows "\<exists>g vp'. evidence_loop self (f, vp) kwargs = Inr (g, vp')
           \<and> wf_Factor g \<and> domain g = domain self"
  using assms
proof (induction kwargs arbitrary: f vp)
  case Nil
  then show ?case by simp
next
  case (Cons kv kwargs)
  obtain V x where kv: "kv = (V, x)" by (cases kv)
  have V: "V \<in> set (domain f)"
    using Cons.prems(2,3) by (simp add: evidence_in_domain_def kv)
  obtain s where s: "outcomeSpace self V = Some s" "x \<in> set s"
    using Cons.prems(3) by (auto simp: evidence_in_domain_def kv split: option.splits)
  have fs: "outcomeSpace f V = Some s"
    using Cons.prems(4) s by (simp add: kv)
  have inv: "shape_invariant f" and dist: "distinct (domain f)"
    using Cons.prems(1) by (simp_all add: wf_Factor_def)
  let ?f' = "f\<lparr>table := tabulate ((shape (table f))[find_pos (domain f) V := Suc 0])
                            (\<lambda>idx. cell (table f) (idx[find_pos (domain f) V := find_pos s x])),
                outcomeSpace := (outcomeSpace f)(V \<mapsto> [x])\<rparr>"
  have step: "evidence_step self (f, vp) (V, x) = Inr (?f', Some (find_pos s x))"
    using evidence_step_ok[OF inv dist V fs s(2) s(1)] .
  have wf': "wf_Factor ?f'"
    using restricted_wf[OF Cons.prems(1) V] .
  have dom': "domain ?f' = domain self"
    using Cons.prems(2) by simp
  have rest: "evidence_in_domain self kwargs"
    using Cons.prems(3) by (simp add: evidence_in_domain_def)
  have "V \<notin> fst ` set kwargs"
    using Cons.prems(3) by (simp add: evidence_in_domain_def kv)
  then have os': "\<forall>kv \<in> set kwargs. outcomeSpace ?f' (fst kv) = outcomeSpace self (fst kv)"
    using Cons.prems(4) by auto
  show ?case
    using Cons.IH[OF wf' dom' rest os', of "Some (find_pos s x)"]
    by (simp add: kv step)
qed

lemma evidence_wf:
  assumes "wf_Factor self" and "evidence_in_domain self kwargs"
  shows "\<exists>g. evidence self kwargs = Inr g \<and> wf_Factor g \<and> domain g = domain self"
  using evidence_loop_wf[OF assms(1) refl assms(2), of None]
  by (auto simp: evidence_def copy_def)

lemma init_uniform_wf:
  assumes "distinct vars" and "\<forall>v \<in> set vars. os v \<noteq> None"
  shows "\<exists>f. init vars os None = Inr f \<and> wf_Factor f"
proof -
  let ?sh = "map (\<lambda>v. length (the (os v))) vars"
  have seq: "sequence (map (\<lambda>var. map_sum id length (lookup os var)) vars) = Inr ?sh"
    using assms(2) by (intro sequence_map_Inr) (auto simp: lookup_def)
  have "list_all2 (\<lambda>n var. case os var of None \<Rightarrow> False | Some s \<Rightarrow> n = length s) ?sh vars"
    using assms(2) by (simp only: list_all2_map1 list_all2_same) auto
  then show ?thesis
    using assms(1)
    by (simp add: init_def seq wf_Factor_def shape_invariant_def np_ones_def)
qed

lemma init_table_wf:
  assumes "wf_Factor \<lparr>domain = vars, outcomeSpace = os, table = t\<rparr>"
  shows "\<exists>f. init vars os (Some t) = Inr f \<and> wf_Factor f"
  using assms by (simp add: init_table)

lemma normalize_wf: "wf_Factor f \<Longrightarrow> wf_Factor (normalize f)"
  by (simp add: normalize_def wf_Factor_def shape_invariant_def)

section \<open>Further examples\<close>

text \<open>
  A variable without outcomes makes the default table empty; its sum is 0, not 1.
\<close>

lemma init_empty_outcomes:
  "map_sum id (\<lambda>f. (table f, np_sum (table f))) (init [0] os_empty None)
     = Inr (\<lparr>shape = [0], data = []\<rparr>, 0)"
  by (simp add: os_empty_def init_def lookup_def np_ones_def np_divide_def np_sum_def
      tabulate_def all_indices_def)

text \<open>
  \<open>join_value\<close> at work: \<open>F0\<close> holds 1 at outcome 0 of variable 0 and \<open>FB\<close> holds 3
  at outcome 1 of variable 2 and outcome 0 of variable 1; both joins hold 3 there, under
  their different domain orders.
\<close>

lemma wf_F0: "wf_Factor F0"
  by (simp add: wf_Factor_def shape_invariant_def wf_array_def F0_def)

lemma join_value_example:
  "\<exists>J K. join sorted_list_of_set F0 FB = Inr J \<and> join sorted_list_of_set FB F0 = Inr K
         \<and> domain J = [0, 1, 2] \<and> domain K = [2, 1, 0]
         \<and> getitem J (Tuple [0, 0, 1]) = Inr (scalar 3)
         \<and> getitem K (Tuple [1, 0, 0]) = Inr (scalar 3)"
proof -
  have agr: "outcomeSpace_agrees F0 FB" "outcomeSpace_agrees FB F0"
    by (simp_all add: outcomeSpace_agrees_def F0_def FB_def)
  have asg: "assignment_for F0 sigma01" "assignment_for FB sigma01"
    by (simp_all add: assignment_for_def F0_def FB_def sigma01_def)
  obtain J where J: "join sorted_list_of_set F0 FB = Inr J"
    "getitem J (Tuple (map sigma01 (domain J)))
       = Inr (scalar (cell (table F0) (map (position F0 sigma01) (domain F0))
                      * cell (table FB) (map (position FB sigma01) (domain FB))))"
    using join_value[OF set_iteration_sorted wf_F0 wf_FB agr(1) asg] by blast
  obtain K where K: "join sorted_list_of_set FB F0 = Inr K"
    "getitem K (Tuple (map sigma01 (domain K)))
       = Inr (scalar (cell (table FB) (map (position FB sigma01) (domain FB))
                      * cell (table F0) (map (position F0 sigma01) (domain F0))))"
    using join_value[OF set_iteration_sorted wf_FB wf_F0 agr(2) asg(2,1)] by blast
  have dJ: "domain J = [0, 1, 2]"
    using join_domain[OF J(1)] by (simp add: F0_def FB_def insert_Diff_if)
  have dK: "domain K = [2, 1, 0]"
    using join_domain[OF K(1)] by (simp add: F0_def FB_def insert_Diff_if)
  have v: "cell (table F0) (map (position F0 sigma01) (domain F0)) = 1"
    "cell (table FB) (map (position FB sigma01) (domain FB)) = 3"
    by (simp_all add: F0_def FB_def position_def sigma01_def find_pos_def array_eval)
  show ?thesis
    using J K by (intro exI[of _ J] exI[of _ K]) (simp add: dJ dK v sigma01_def)
qed

end
